theory Spec2Isabelle
  imports Main "HOL-Library.Word"
begin

unbundle bit_operations_syntax

section \<open>The shared-memory hash table of fast\_shm\_cache.cc\<close>

text \<open>
  The embedding follows \<^verbatim>\<open>src/fast_shm_cache.cc\<close>. A C \<^verbatim>\<open>char\<close> is a byte
  (\<open>8 word\<close>); a \<^verbatim>\<open>std::string\<close> is a list of bytes that may contain NUL bytes
  (\<^verbatim>\<open>Utf8Value()\<close> keeps them); a \<^verbatim>\<open>char[N]\<close> buffer is a list of \<open>N\<close> bytes.
  \<^verbatim>\<open>size_t\<close> is 64 bits wide: the slot index keeps its reduction modulo \<open>2 ^ 64\<close>, the
  atomic entry counter is a \<open>64 word\<close>. The mutexes are left out: every operation runs
  alone, and the order in which an operation locks slots is returned as a list of
  slot indices.
\<close>

type_synonym byte = "8 word"

abbreviation MAX_KEY_SIZE :: nat where "MAX_KEY_SIZE \<equiv> 64"

abbreviation MAX_VALUE_SIZE :: nat where "MAX_VALUE_SIZE \<equiv> 256"

abbreviation DEFAULT_MAX_KEYS :: nat where "DEFAULT_MAX_KEYS \<equiv> 1024"

record CacheSlot =
  occupied :: bool
  key :: "byte list"
  "value" :: "byte list"
  timestamp :: "64 word"

record SharedMemoryHeader =
  max_keys :: nat
  num_entries :: "64 word"

record FastShmCache =
  header :: SharedMemoryHeader
  slots :: "CacheSlot list"

datatype error = DivisionByZero | OutOfBounds

subsection \<open>C strings\<close>

text \<open>\<^verbatim>\<open>std::string::c_str()\<close>: the bytes of the string followed by a NUL.\<close>

definition c_str :: "byte list \<Rightarrow> byte list" where
  "c_str s = s @ [0]"

text \<open>
  \<^verbatim>\<open>std::string(const char*)\<close> and \<^verbatim>\<open>Napi::String::New(env, const char*)\<close>: the bytes
  before the first NUL.
\<close>

definition string_of_cstr :: "byte list \<Rightarrow> byte list" where
  "string_of_cstr buf = takeWhile (\<lambda>c. c \<noteq> 0) buf"

text \<open>
  \<^verbatim>\<open>strncmp(s1, s2, n)\<close>: at most \<open>n\<close> bytes are compared, and none after a NUL. The
  last equation is a read past the end of a buffer; it is not reached from the table,
  whose key buffers hold \<open>MAX_KEY_SIZE\<close> bytes and whose other argument ends in NUL.
\<close>

fun strncmp :: "byte list \<Rightarrow> byte list \<Rightarrow> nat \<Rightarrow> int" where
  "strncmp s1 s2 0 = 0"
| "strncmp (a # s1) (b # s2) (Suc n) =
     (if a \<noteq> b then (if a < b then - 1 else 1)
      else if a = 0 then 0
      else strncmp s1 s2 n)"
| "strncmp s1 s2 (Suc n) = 0"

text \<open>
  \<^verbatim>\<open>strncpy(dest, src, n)\<close>: the bytes of \<open>src\<close> before its first NUL, at most \<open>n\<close> of
  them, then NULs up to \<open>n\<close> bytes written; the rest of \<open>dest\<close> stays.
\<close>

definition strncpy :: "byte list \<Rightarrow> byte list \<Rightarrow> nat \<Rightarrow> byte list" where
  "strncpy dest src n =
     (let s = takeWhile (\<lambda>c. c \<noteq> 0) (take n src)
      in s @ replicate (n - length s) 0 @ drop n dest)"

definition memset :: "byte list \<Rightarrow> byte \<Rightarrow> nat \<Rightarrow> byte list" where
  "memset buf c n = replicate n c @ drop n buf"

subsection \<open>Hash\<close>

text \<open>
  \<^verbatim>\<open>static_cast<uint32_t>(c)\<close> of a \<^verbatim>\<open>char c\<close>. Whether \<^verbatim>\<open>char\<close> is signed is fixed by
  the platform ABI, not by the source: it is signed on x86-64 (Linux, macOS, Windows)
  and on Apple arm64, where the cast extends the sign bit; it is unsigned on Linux
  arm64. The flag \<open>char_signed\<close> selects the ABI.
\<close>

definition static_cast_uint32 :: "bool \<Rightarrow> byte \<Rightarrow> 32 word" where
  "static_cast_uint32 char_signed c = (if char_signed then scast c else ucast c)"

abbreviation FNV_32_PRIME :: "32 word" where "FNV_32_PRIME \<equiv> 0x01000193"

fun Hash_loop :: "bool \<Rightarrow> 32 word \<Rightarrow> byte list \<Rightarrow> 32 word" where
  "Hash_loop char_signed hash [] = hash"
| "Hash_loop char_signed hash (c # cs) =
     Hash_loop char_signed ((hash XOR static_cast_uint32 char_signed c) * FNV_32_PRIME) cs"

definition Hash_abi :: "bool \<Rightarrow> byte list \<Rightarrow> 32 word" where
  "Hash_abi char_signed k = Hash_loop char_signed 0x811c9dc5 k"

text \<open>The hash as the addon computes it where \<^verbatim>\<open>char\<close> is signed (x86-64).\<close>

definition Hash :: "byte list \<Rightarrow> 32 word" where
  "Hash k = Hash_abi True k"

text \<open>
  32-bit FNV-1a as the specification words it: from the offset basis, each byte, a value
  in \<open>0 .. 255\<close>, is XORed into the running hash, which is then multiplied by the prime,
  modulo \<open>2 ^ 32\<close>.
\<close>

definition fnv1a_32 :: "byte list \<Rightarrow> nat" where
  "fnv1a_32 bs = foldl (\<lambda>h b. ((h XOR unat b) * 16777619) mod 2 ^ 32) 2166136261 bs"

subsection \<open>Creation\<close>

definition zero_slot :: CacheSlot where
  "zero_slot =
     \<lparr>occupied = False, key = replicate MAX_KEY_SIZE 0,
      value = replicate MAX_VALUE_SIZE 0, timestamp = 0\<rparr>"

text \<open>
  \<^verbatim>\<open>InitializeSharedMemory\<close> on the creator's path, the system calls having succeeded:
  the region is zeroed, the capacity stored, the counter and every flag reset.
\<close>

definition InitializeSharedMemory :: "nat \<Rightarrow> FastShmCache" where
  "InitializeSharedMemory n =
     \<lparr>header = \<lparr>max_keys = n, num_entries = 0\<rparr>, slots = replicate n zero_slot\<rparr>"

text \<open>
  The constructor: \<open>maxKeys\<close> is the option read with \<^verbatim>\<open>Uint32Value()\<close> when it is
  present and a number, and stored without any check.
\<close>

definition FastShmCache_new :: "32 word option \<Rightarrow> FastShmCache" where
  "FastShmCache_new maxKeys =
     InitializeSharedMemory (case maxKeys of None \<Rightarrow> DEFAULT_MAX_KEYS | Some n \<Rightarrow> unat n)"

text \<open>
  \<^verbatim>\<open>InitializeSharedMemory\<close> on the attacher's path: the name exists already, so
  \<^verbatim>\<open>is_creator_\<close> is false and nothing is initialised. The process maps \<^verbatim>\<open>shm_size_\<close> bytes
  of the segment \<open>seg\<close>, and \<^verbatim>\<open>shm_size_\<close> is computed from the process's own argument,
  \<^verbatim>\<open>sizeof(SharedMemoryHeader) + (max_keys * sizeof(CacheSlot))\<close>, not from the size of the
  segment nor from the capacity in its header. What the process reaches through
  \<^verbatim>\<open>header_\<close> and \<^verbatim>\<open>slots_\<close> is the header of the segment, with the capacity the creator
  stored, and the slots inside its mapping, the first \<open>n\<close> of the segment. (The system
  maps whole pages, so a read less than a page past \<^verbatim>\<open>shm_size_\<close> may find memory; it is
  outside the mapping the process asked for all the same.)
\<close>

definition InitializeSharedMemory_attach :: "nat \<Rightarrow> FastShmCache \<Rightarrow> FastShmCache" where
  "InitializeSharedMemory_attach n seg = \<lparr>header = header seg, slots = take n (slots seg)\<rparr>"

text \<open>The constructor called with a name that exists: the same reading of \<open>maxKeys\<close>.\<close>

definition FastShmCache_attach :: "32 word option \<Rightarrow> FastShmCache \<Rightarrow> FastShmCache" where
  "FastShmCache_attach maxKeys seg =
     InitializeSharedMemory_attach
       (case maxKeys of None \<Rightarrow> DEFAULT_MAX_KEYS | Some n \<Rightarrow> unat n) seg"

subsection \<open>Linear probing\<close>

text \<open>\<^verbatim>\<open>slots_[index]\<close>: a read outside the slot array is an error of the model.\<close>

definition slot_at :: "CacheSlot list \<Rightarrow> nat \<Rightarrow> error + CacheSlot" where
  "slot_at arr index = (if index < length arr then Inr (arr ! index) else Inl OutOfBounds)"

text \<open>\<^verbatim>\<open>(start_index + i) % header_->max_keys\<close> in \<^verbatim>\<open>size_t\<close> arithmetic.\<close>

definition probe_index :: "nat \<Rightarrow> nat \<Rightarrow> nat \<Rightarrow> nat" where
  "probe_index n start_index i = ((start_index + i) mod 2 ^ 64) mod n"

text \<open>
  The loop shared by \<^verbatim>\<open>Set\<close>, \<^verbatim>\<open>Get\<close>, \<^verbatim>\<open>Delete\<close> and \<^verbatim>\<open>Has\<close>: from \<open>i\<close> on, lock the slot
  at the probe index and stop at the first one that satisfies \<open>hit\<close>. The result is the
  list of the indices locked, in order, and the index of the hit, if any.
\<close>

function probe ::
  "(CacheSlot \<Rightarrow> bool) \<Rightarrow> CacheSlot list \<Rightarrow> nat \<Rightarrow> nat \<Rightarrow> nat \<Rightarrow> error + (nat list \<times> nat option)"
where
  "probe hit arr n start_index i =
     (if i < n then
        (let index = probe_index n start_index i in
         case slot_at arr index of
           Inl e \<Rightarrow> Inl e
         | Inr slot \<Rightarrow>
             if hit slot then Inr ([index], Some index)
             else (case probe hit arr n start_index (i + 1) of
                     Inl e \<Rightarrow> Inl e
                   | Inr (visited, found) \<Rightarrow> Inr (index # visited, found)))
      else Inr ([], None))"
  by pat_completeness auto

termination
  by (relation "measure (\<lambda>(hit, arr, n, start_index, i). n - i)") auto

text \<open>
  \<^verbatim>\<open>hash % header_->max_keys\<close>, then the loop. The division traps when the stored
  capacity is zero.
\<close>

definition scan ::
  "(CacheSlot \<Rightarrow> bool) \<Rightarrow> FastShmCache \<Rightarrow> byte list \<Rightarrow> error + (nat list \<times> nat option)"
where
  "scan hit c k =
     (if max_keys (header c) = 0 then Inl DivisionByZero
      else probe hit (slots c) (max_keys (header c))
             (unat (Hash k) mod max_keys (header c)) 0)"

text \<open>The test of \<^verbatim>\<open>Set\<close>: the slot is empty or has the same key.\<close>

definition set_hit :: "byte list \<Rightarrow> CacheSlot \<Rightarrow> bool" where
  "set_hit k slot =
     (\<not> occupied slot \<or> strncmp (key slot) (c_str k) MAX_KEY_SIZE = 0)"

text \<open>The test of \<^verbatim>\<open>Get\<close>, \<^verbatim>\<open>Delete\<close> and \<^verbatim>\<open>Has\<close>: the slot is occupied and has the same key.\<close>

definition key_hit :: "byte list \<Rightarrow> CacheSlot \<Rightarrow> bool" where
  "key_hit k slot = (occupied slot \<and> strncmp (key slot) (c_str k) MAX_KEY_SIZE = 0)"

subsection \<open>The operations\<close>

definition write_slot :: "CacheSlot \<Rightarrow> byte list \<Rightarrow> byte list \<Rightarrow> 64 word \<Rightarrow> CacheSlot" where
  "write_slot slot k v now =
     slot\<lparr>key := (strncpy (key slot) (c_str k) (MAX_KEY_SIZE - 1))[MAX_KEY_SIZE - 1 := 0],
          value := (strncpy (value slot) (c_str v) (MAX_VALUE_SIZE - 1))[MAX_VALUE_SIZE - 1 := 0],
          timestamp := now,
          occupied := True\<rparr>"

definition erase_slot :: "CacheSlot \<Rightarrow> CacheSlot" where
  "erase_slot slot =
     slot\<lparr>occupied := False,
          key := memset (key slot) 0 MAX_KEY_SIZE,
          value := memset (value slot) 0 MAX_VALUE_SIZE\<rparr>"

definition fetch_add :: "FastShmCache \<Rightarrow> FastShmCache" where
  "fetch_add c = c\<lparr>header := (header c)\<lparr>num_entries := num_entries (header c) + 1\<rparr>\<rparr>"

definition fetch_sub :: "FastShmCache \<Rightarrow> FastShmCache" where
  "fetch_sub c = c\<lparr>header := (header c)\<lparr>num_entries := num_entries (header c) - 1\<rparr>\<rparr>"

text \<open>\<open>now\<close> is the reading of the system clock that \<^verbatim>\<open>Set\<close> stamps on the slot.\<close>

definition Set ::
  "FastShmCache \<Rightarrow> byte list \<Rightarrow> byte list \<Rightarrow> 64 word \<Rightarrow> error + (bool \<times> FastShmCache)"
where
  "Set c k v now =
     (if length k \<ge> MAX_KEY_SIZE \<or> length v \<ge> MAX_VALUE_SIZE then Inr (False, c)
      else case scan (set_hit k) c k of
        Inl e \<Rightarrow> Inl e
      | Inr (visited, None) \<Rightarrow> Inr (False, c)
      | Inr (visited, Some index) \<Rightarrow>
          (let slot = slots c ! index;
               was_new = (\<not> occupied slot);
               c' = c\<lparr>slots := (slots c)[index := write_slot slot k v now]\<rparr>
           in Inr (True, if was_new then fetch_add c' else c')))"

definition Get :: "FastShmCache \<Rightarrow> byte list \<Rightarrow> error + byte list option" where
  "Get c k =
     (if length k \<ge> MAX_KEY_SIZE then Inr None
      else case scan (key_hit k) c k of
        Inl e \<Rightarrow> Inl e
      | Inr (visited, None) \<Rightarrow> Inr None
      | Inr (visited, Some index) \<Rightarrow> Inr (Some (string_of_cstr (value (slots c ! index)))))"

definition Delete :: "FastShmCache \<Rightarrow> byte list \<Rightarrow> error + (bool \<times> FastShmCache)" where
  "Delete c k =
     (if length k \<ge> MAX_KEY_SIZE then Inr (False, c)
      else case scan (key_hit k) c k of
        Inl e \<Rightarrow> Inl e
      | Inr (visited, None) \<Rightarrow> Inr (False, c)
      | Inr (visited, Some index) \<Rightarrow>
          Inr (True, fetch_sub (c\<lparr>slots := (slots c)[index := erase_slot (slots c ! index)]\<rparr>)))"

definition Has :: "FastShmCache \<Rightarrow> byte list \<Rightarrow> error + bool" where
  "Has c k =
     (if length k \<ge> MAX_KEY_SIZE then Inr False
      else case scan (key_hit k) c k of
        Inl e \<Rightarrow> Inl e
      | Inr (visited, None) \<Rightarrow> Inr False
      | Inr (visited, Some index) \<Rightarrow> Inr True)"

function Keys_loop :: "CacheSlot list \<Rightarrow> nat \<Rightarrow> nat \<Rightarrow> error + byte list list" where
  "Keys_loop arr n i =
     (if i < n then
        (case slot_at arr i of
           Inl e \<Rightarrow> Inl e
         | Inr slot \<Rightarrow>
             (case Keys_loop arr n (i + 1) of
                Inl e \<Rightarrow> Inl e
              | Inr keys \<Rightarrow>
                  Inr (if occupied slot then string_of_cstr (key slot) # keys else keys)))
      else Inr [])"
  by pat_completeness auto

termination
  by (relation "measure (\<lambda>(arr, n, i). n - i)") auto

definition Keys :: "FastShmCache \<Rightarrow> error + byte list list" where
  "Keys c = Keys_loop (slots c) (max_keys (header c)) 0"

function Entries_loop ::
  "CacheSlot list \<Rightarrow> nat \<Rightarrow> nat \<Rightarrow> error + (byte list \<times> byte list) list"
where
  "Entries_loop arr n i =
     (if i < n then
        (case slot_at arr i of
           Inl e \<Rightarrow> Inl e
         | Inr slot \<Rightarrow>
             (case Entries_loop arr n (i + 1) of
                Inl e \<Rightarrow> Inl e
              | Inr entries \<Rightarrow>
                  Inr (if occupied slot
                       then (string_of_cstr (key slot), string_of_cstr (value slot)) # entries
                       else entries)))
      else Inr [])"
  by pat_completeness auto

termination
  by (relation "measure (\<lambda>(arr, n, i). n - i)") auto

definition Entries :: "FastShmCache \<Rightarrow> error + (byte list \<times> byte list) list" where
  "Entries c = Entries_loop (slots c) (max_keys (header c)) 0"

function Clear_loop :: "CacheSlot list \<Rightarrow> nat \<Rightarrow> nat \<Rightarrow> error + CacheSlot list" where
  "Clear_loop arr n i =
     (if i < n then
        (case slot_at arr i of
           Inl e \<Rightarrow> Inl e
         | Inr slot \<Rightarrow>
             Clear_loop (if occupied slot then arr[i := erase_slot slot] else arr) n (i + 1))
      else Inr arr)"
  by pat_completeness auto

termination
  by (relation "measure (\<lambda>(arr, n, i). n - i)") auto

definition Clear :: "FastShmCache \<Rightarrow> error + FastShmCache" where
  "Clear c =
     (case Clear_loop (slots c) (max_keys (header c)) 0 of
        Inl e \<Rightarrow> Inl e
      | Inr arr \<Rightarrow> Inr (c\<lparr>slots := arr, header := (header c)\<lparr>num_entries := 0\<rparr>\<rparr>))"

text \<open>\<^verbatim>\<open>Size\<close>: the counter, read as a number.\<close>

definition Size :: "FastShmCache \<Rightarrow> nat" where
  "Size c = unat (num_entries (header c))"

subsection \<open>Table states\<close>

text \<open>
  The layout the C types give: the capacity was read as a 32-bit number, the slot array
  has that many slots, and the buffers of a slot have their declared sizes.
\<close>

definition slot_layout :: "CacheSlot \<Rightarrow> bool" where
  "slot_layout slot =
     (length (key slot) = MAX_KEY_SIZE \<and> length (value slot) = MAX_VALUE_SIZE)"

definition layout :: "FastShmCache \<Rightarrow> bool" where
  "layout c =
     (max_keys (header c) < 2 ^ 32 \<and> length (slots c) = max_keys (header c) \<and>
      list_all slot_layout (slots c))"

text \<open>The states that sequential calls reach from a freshly created table.\<close>

inductive reachable :: "FastShmCache \<Rightarrow> bool" where
  fresh: "reachable (FastShmCache_new maxKeys)"
| after_Set: "reachable c \<Longrightarrow> Set c k v now = Inr (r, c') \<Longrightarrow> reachable c'"
| after_Delete: "reachable c \<Longrightarrow> Delete c k = Inr (r, c') \<Longrightarrow> reachable c'"
| after_Clear: "reachable c \<Longrightarrow> Clear c = Inr c' \<Longrightarrow> reachable c'"

text \<open>
  What holds of every reachable table beyond its layout: a slot that is not occupied has
  zeroed buffers, and the counter is the number of occupied slots.
\<close>

definition slot_inv :: "CacheSlot \<Rightarrow> bool" where
  "slot_inv slot =
     (slot_layout slot \<and>
      (\<not> occupied slot \<longrightarrow>
         key slot = replicate MAX_KEY_SIZE 0 \<and> value slot = replicate MAX_VALUE_SIZE 0))"

definition table_inv :: "FastShmCache \<Rightarrow> bool" where
  "table_inv c =
     (layout c \<and> list_all slot_inv (slots c) \<and>
      unat (num_entries (header c)) = length (filter occupied (slots c)))"

subsection \<open>The methods as the addon exports them\<close>

text \<open>
  \<^verbatim>\<open>Init\<close> binds the eight methods to one object. A call is a method with its
  arguments (for \<^verbatim>\<open>set\<close> also the clock reading it will stamp), a reply is the
  JavaScript value returned; \<open>run\<close> performs calls one after the other on the
  same table.
\<close>

datatype call =
    Call_set "byte list" "byte list" "64 word"
  | Call_get "byte list"
  | Call_delete "byte list"
  | Call_has "byte list"
  | Call_keys
  | Call_entries
  | Call_clear
  | Call_size

datatype reply =
    Boolean bool
  | String_or_undefined "byte list option"
  | Key_array "byte list list"
  | Entry_array "(byte list \<times> byte list) list"
  | Undefined
  | Number nat

fun invoke :: "FastShmCache \<Rightarrow> call \<Rightarrow> error + (reply \<times> FastShmCache)" where
  "invoke c (Call_set k v now) =
     (case Set c k v now of Inl e \<Rightarrow> Inl e | Inr (r, c') \<Rightarrow> Inr (Boolean r, c'))"
| "invoke c (Call_get k) =
     (case Get c k of Inl e \<Rightarrow> Inl e | Inr r \<Rightarrow> Inr (String_or_undefined r, c))"
| "invoke c (Call_delete k) =
     (case Delete c k of Inl e \<Rightarrow> Inl e | Inr (r, c') \<Rightarrow> Inr (Boolean r, c'))"
| "invoke c (Call_has k) =
     (case Has c k of Inl e \<Rightarrow> Inl e | Inr r \<Rightarrow> Inr (Boolean r, c))"
| "invoke c Call_keys =
     (case Keys c of Inl e \<Rightarrow> Inl e | Inr r \<Rightarrow> Inr (Key_array r, c))"
| "invoke c Call_entries =
     (case Entries c of Inl e \<Rightarrow> Inl e | Inr r \<Rightarrow> Inr (Entry_array r, c))"
| "invoke c Call_clear =
     (case Clear c of Inl e \<Rightarrow> Inl e | Inr c' \<Rightarrow> Inr (Undefined, c'))"
| "invoke c Call_size = Inr (Number (Size c), c)"

fun run :: "FastShmCache \<Rightarrow> call list \<Rightarrow> error + (reply list \<times> FastShmCache)" where
  "run c [] = Inr ([], c)"
| "run c (x # xs) =
     (case invoke c x of
        Inl e \<Rightarrow> Inl e
      | Inr (r, c') \<Rightarrow>
          (case run c' xs of Inl e \<Rightarrow> Inl e | Inr (rs, c'') \<Rightarrow> Inr (r # rs, c'')))"

definition replies :: "FastShmCache \<Rightarrow> call list \<Rightarrow> error + reply list" where
  "replies c xs = (case run c xs of Inl e \<Rightarrow> Inl e | Inr (rs, c') \<Rightarrow> Inr rs)"

definition state_after :: "FastShmCache \<Rightarrow> call list \<Rightarrow> error + FastShmCache" where
  "state_after c xs = (case run c xs of Inl e \<Rightarrow> Inl e | Inr (rs, c') \<Rightarrow> Inr c')"

text \<open>
  Filling a table: an entry is a key, a value and the clock reading of its \<^verbatim>\<open>set\<close>.
  \<open>stores c es\<close> says that the occupied slots of \<open>c\<close> are as many as the entries and
  hold, as C strings, keys and values of entries, and that every entry's key is found
  in some slot.
\<close>

type_synonym entry = "byte list \<times> byte list \<times> 64 word"

definition set_calls :: "entry list \<Rightarrow> call list" where
  "set_calls es = map (\<lambda>(k, v, now). Call_set k v now) es"

definition stores :: "FastShmCache \<Rightarrow> entry list \<Rightarrow> bool" where
  "stores c es =
     (table_inv c \<and> length (filter occupied (slots c)) = length es \<and>
      (\<forall>i<length (slots c). occupied (slots c ! i) \<longrightarrow>
         (\<exists>e\<in>set es.
            string_of_cstr (key (slots c ! i)) = string_of_cstr (fst e) \<and>
            string_of_cstr (value (slots c ! i)) = string_of_cstr (fst (snd e)))) \<and>
      (\<forall>e\<in>set es. \<exists>i<length (slots c). key_hit (fst e) (slots c ! i)))"

subsection \<open>Small tables\<close>

text \<open>
  A table of capacity 1 after \<^verbatim>\<open>set("k", "ab")\<close>; a table of capacity 2 after
  \<^verbatim>\<open>set("a", "1")\<close>; and the latter after \<^verbatim>\<open>set("c", "3")\<close> and \<^verbatim>\<open>delete("a")\<close>. The keys \<^verbatim>\<open>"a"\<close>
  and \<^verbatim>\<open>"c"\<close> both hash to an even number, so both start probing at slot 0: \<^verbatim>\<open>"c"\<close> was
  stored in slot 1, past slot 0, which the deletion then emptied.
\<close>

definition one_entry_table :: FastShmCache where
  "one_entry_table =
     \<lparr>header = \<lparr>max_keys = 1, num_entries = 1\<rparr>,
      slots = [write_slot zero_slot [0x6B] [0x61, 0x62] 7]\<rparr>"

definition first_slot_table :: FastShmCache where
  "first_slot_table =
     \<lparr>header = \<lparr>max_keys = 2, num_entries = 1\<rparr>,
      slots = [write_slot zero_slot [0x61] [0x31] 1, zero_slot]\<rparr>"

definition hole_table :: FastShmCache where
  "hole_table =
     \<lparr>header = \<lparr>max_keys = 2, num_entries = 1\<rparr>,
      slots = [erase_slot (write_slot zero_slot [0x61] [0x31] 1),
               write_slot zero_slot [0x63] [0x33] 2]\<rparr>"

text \<open>
  The table with the hole after one more call, \<^verbatim>\<open>set("c", "4")\<close>: the new value went to slot 0,
  the slot of \<^verbatim>\<open>"c"\<close> further on kept the old one.
\<close>

definition duplicate_table :: FastShmCache where
  "duplicate_table =
     \<lparr>header = \<lparr>max_keys = 2, num_entries = 2\<rparr>,
      slots = [write_slot (erase_slot (write_slot zero_slot [0x61] [0x31] 1)) [0x63] [0x34] 3,
               write_slot zero_slot [0x63] [0x33] 2]\<rparr>"

section \<open>C strings in fixed buffers\<close>

lemma string_of_cstr_c_str: "string_of_cstr (c_str k) = string_of_cstr k"
  by (induction k) (simp_all add: string_of_cstr_def c_str_def)

lemma string_of_cstr_no_nul: "0 \<notin> set k \<Longrightarrow> string_of_cstr k = k"
  by (induction k) (simp_all add: string_of_cstr_def)

lemma length_string_of_cstr: "length (string_of_cstr k) \<le> length k"
  by (simp add: string_of_cstr_def length_takeWhile_le)

lemma string_of_cstr_Nil: "string_of_cstr [] = []"
  by (simp add: string_of_cstr_def)

lemma string_of_cstr_Cons:
  "string_of_cstr (x # xs) = (if x = 0 then [] else x # string_of_cstr xs)"
  by (simp add: string_of_cstr_def)

lemma string_of_cstr_pad:
  "string_of_cstr (string_of_cstr k @ replicate n 0 @ [0]) = string_of_cstr k"
proof -
  have "takeWhile (\<lambda>c. c \<noteq> (0::byte)) (replicate n 0 @ [0]) = []"
    by (cases n) simp_all
  moreover have "\<forall>x\<in>set (string_of_cstr k). x \<noteq> 0"
    by (auto simp: string_of_cstr_def dest: set_takeWhileD)
  ultimately show ?thesis
    by (simp add: string_of_cstr_def takeWhile_append2)
qed

lemma take_c_str: "length k \<le> n \<Longrightarrow> string_of_cstr (take n (c_str k)) = string_of_cstr k"
  by (cases "length k < n")
     (simp_all add: c_str_def string_of_cstr_c_str[unfolded c_str_def])

text \<open>
  \<^verbatim>\<open>strncmp\<close> returns 0 exactly when the two C strings, cut at \<open>n\<close> bytes, are equal,
  provided neither buffer is overrun.
\<close>

lemma strncmp_zero_iff:
  "n \<le> length s1 \<Longrightarrow> 0 \<in> set s2 \<Longrightarrow>
   (strncmp s1 s2 n = 0) = (string_of_cstr (take n s1) = string_of_cstr (take n s2))"
proof (induction s1 s2 n rule: strncmp.induct)
  case (2 a s1 b s2 n)
  then show ?case by (auto simp: string_of_cstr_def)
qed simp_all

lemma strncmp_key:
  assumes "length buf = MAX_KEY_SIZE" "length k < MAX_KEY_SIZE"
  shows "(strncmp buf (c_str k) MAX_KEY_SIZE = 0) = (string_of_cstr buf = string_of_cstr k)"
proof -
  have "0 \<in> set (c_str k)" by (simp add: c_str_def)
  moreover have "take MAX_KEY_SIZE (c_str k) = c_str k"
    using assms by (simp add: c_str_def)
  ultimately show ?thesis
    using strncmp_zero_iff [of MAX_KEY_SIZE buf "c_str k"] assms
    by (simp add: string_of_cstr_c_str)
qed

text \<open>The buffer after \<^verbatim>\<open>strncpy(buf, s.c_str(), N - 1); buf[N - 1] = 0\<close>.\<close>

lemma copy_buffer:
  assumes "length buf = Suc n" "length k \<le> n"
  shows "(strncpy buf (c_str k) n)[n := 0] =
         string_of_cstr k @ replicate (n - length (string_of_cstr k)) 0 @ [0]"
proof -
  have s: "takeWhile (\<lambda>c. c \<noteq> 0) (take n (c_str k)) = string_of_cstr k"
    using take_c_str [OF assms(2)] by (simp add: string_of_cstr_def)
  have l: "length (string_of_cstr k) \<le> n"
    using length_string_of_cstr [of k] assms(2) by simp
  have d: "drop n buf = [buf ! n]"
    using assms(1) by (simp add: Cons_nth_drop_Suc [symmetric])
  show ?thesis
    using l by (simp add: strncpy_def s d list_update_append Let_def)
qed

section \<open>Slots\<close>

lemma occupied_zero_slot: "occupied zero_slot = False"
  by (simp add: zero_slot_def)

lemma slot_layout_zero: "slot_layout zero_slot"
  by (simp add: slot_layout_def zero_slot_def)

lemma occupied_write_slot: "occupied (write_slot s k v now) = True"
  by (simp add: write_slot_def)

lemma occupied_erase_slot: "occupied (erase_slot s) = False"
  by (simp add: erase_slot_def)

lemma key_write_slot:
  "slot_layout s \<Longrightarrow> length k < MAX_KEY_SIZE \<Longrightarrow>
   key (write_slot s k v now) =
     string_of_cstr k @ replicate (63 - length (string_of_cstr k)) 0 @ [0]"
  using copy_buffer [of "key s" 63 k] by (simp add: write_slot_def slot_layout_def)

lemma value_write_slot:
  "slot_layout s \<Longrightarrow> length v < MAX_VALUE_SIZE \<Longrightarrow>
   value (write_slot s k v now) =
     string_of_cstr v @ replicate (255 - length (string_of_cstr v)) 0 @ [0]"
  using copy_buffer [of "value s" 255 v] by (simp add: write_slot_def slot_layout_def)

lemma length_pad:
  "length k \<le> n \<Longrightarrow>
   length (string_of_cstr k @ replicate (n - length (string_of_cstr k)) (0::byte) @ [0]) = Suc n"
  using length_string_of_cstr [of k] by simp

lemma slot_layout_write:
  "slot_layout s \<Longrightarrow> length k < MAX_KEY_SIZE \<Longrightarrow> length v < MAX_VALUE_SIZE \<Longrightarrow>
   slot_layout (write_slot s k v now)"
  using length_pad [of k 63] length_pad [of v 255]
  by (simp add: slot_layout_def key_write_slot value_write_slot del: length_append length_replicate)

lemma slot_layout_erase: "slot_layout s \<Longrightarrow> slot_layout (erase_slot s)"
  by (simp add: slot_layout_def erase_slot_def memset_def)

lemma cstr_key_write_slot:
  "slot_layout s \<Longrightarrow> length k < MAX_KEY_SIZE \<Longrightarrow>
   string_of_cstr (key (write_slot s k v now)) = string_of_cstr k"
  by (simp add: key_write_slot string_of_cstr_pad)

lemma cstr_value_write_slot:
  "slot_layout s \<Longrightarrow> length v < MAX_VALUE_SIZE \<Longrightarrow>
   string_of_cstr (value (write_slot s k v now)) = string_of_cstr v"
  by (simp add: value_write_slot string_of_cstr_pad)

lemma pad_bytes:
  "n \<le> m \<Longrightarrow> replicate (m - n) (0 :: byte) @ [0] = replicate (Suc m - n) 0"
  by (simp add: replicate_append_same Suc_diff_le)

lemma key_write_slot_bytes:
  assumes "slot_layout s" "length k < MAX_KEY_SIZE"
  shows "key (write_slot s k v now) =
         string_of_cstr k @ replicate (MAX_KEY_SIZE - length (string_of_cstr k)) 0"
proof -
  have "length (string_of_cstr k) \<le> 63"
    using length_string_of_cstr [of k] assms(2) by simp
  then show ?thesis
    using pad_bytes [of "length (string_of_cstr k)" 63] assms
    by (simp add: key_write_slot)
qed

lemma value_write_slot_bytes:
  assumes "slot_layout s" "length v < MAX_VALUE_SIZE"
  shows "value (write_slot s k v now) =
         string_of_cstr v @ replicate (MAX_VALUE_SIZE - length (string_of_cstr v)) 0"
proof -
  have "length (string_of_cstr v) \<le> 255"
    using length_string_of_cstr [of v] assms(2) by simp
  then show ?thesis
    using pad_bytes [of "length (string_of_cstr v)" 255] assms
    by (simp add: value_write_slot)
qed

lemma key_hit_iff:
  "slot_layout s \<Longrightarrow> length k < MAX_KEY_SIZE \<Longrightarrow>
   key_hit k s = (occupied s \<and> string_of_cstr (key s) = string_of_cstr k)"
  by (simp add: key_hit_def strncmp_key slot_layout_def)

lemma set_hit_iff:
  "slot_layout s \<Longrightarrow> length k < MAX_KEY_SIZE \<Longrightarrow>
   set_hit k s = (\<not> occupied s \<or> string_of_cstr (key s) = string_of_cstr k)"
  by (simp add: set_hit_def strncmp_key slot_layout_def)

lemma set_hit_cases: "set_hit k s = (\<not> occupied s \<or> key_hit k s)"
  by (auto simp: set_hit_def key_hit_def)

section \<open>The hash\<close>

lemma bit7: "unat (b :: byte) < 128 \<Longrightarrow> \<not> bit b 7"
proof -
  assume "unat b < 128"
  then have "unat b div 2 ^ 7 = 0" by simp
  then have "\<not> bit (unat b) 7" by (simp add: bit_iff_odd)
  then show ?thesis
    by (simp add: bit_unsigned_iff)
qed

lemma scast_ascii: "\<not> bit (b :: byte) 7 \<Longrightarrow> (scast b :: 32 word) = ucast b"
proof (rule bit_word_eqI)
  fix n assume b: "\<not> bit b 7" and n: "n < LENGTH(32)"
  have "bit b n \<Longrightarrow> n < 7"
  proof -
    assume h: "bit b n"
    then have "n < 8" using bit_imp_le_length [of b n] by simp
    then show "n < 7" using b h by (cases "n = 7") simp_all
  qed
  then show "bit (scast b :: 32 word) n = bit (ucast b :: 32 word) n"
    using b n by (auto simp add: bit_simps min_def)
qed

lemma unat_step:
  "unat ((h XOR ucast (b :: byte)) * (16777619 :: 32 word)) = ((unat h XOR unat b) * 16777619) mod 2 ^ 32"
proof -
  have "unat b < 2 ^ 8" using unsigned_less [of b, where 'a = nat] by simp
  then have "unat b < 2 ^ 32" by simp
  then have "take_bit 32 (unat b) = unat b" by (simp add: take_bit_nat_eq_self)
  then show ?thesis
    by (simp add: unat_word_ariths unsigned_xor_eq unsigned_ucast_eq)
qed

lemma Hash_loop_unsigned:
  "unat (Hash_loop False h bs) =
     foldl (\<lambda>h b. ((h XOR unat b) * 16777619) mod 2 ^ 32) (unat h) bs"
  by (induction bs arbitrary: h) (simp_all add: static_cast_uint32_def unat_step)

lemma Hash_loop_ascii:
  "\<forall>b\<in>set bs. unat b < 128 \<Longrightarrow> Hash_loop True h bs = Hash_loop False h bs"
  by (induction bs arbitrary: h) (simp_all add: static_cast_uint32_def scast_ascii bit7)

text \<open>
  Where \<^verbatim>\<open>char\<close> is unsigned the function is 32-bit FNV-1a on every byte string; where
  it is signed, it is FNV-1a on the strings whose bytes are all below \<open>0x80\<close>.
\<close>

lemma Hash_unsigned_is_fnv1a: "unat (Hash_abi False bs) = fnv1a_32 bs"
  by (simp add: Hash_abi_def fnv1a_32_def Hash_loop_unsigned)

lemma Hash_ascii_is_fnv1a: "\<forall>b\<in>set bs. unat b < 128 \<Longrightarrow> unat (Hash bs) = fnv1a_32 bs"
  by (simp add: Hash_def Hash_abi_def fnv1a_32_def Hash_loop_ascii Hash_loop_unsigned)

text \<open>
  The hashes of the keys \<^verbatim>\<open>"a"\<close>, \<^verbatim>\<open>"b"\<close> and \<^verbatim>\<open>"c"\<close> used below: those of \<^verbatim>\<open>"a"\<close> and
  \<^verbatim>\<open>"c"\<close> are even, so with capacity 2 both keys start probing at slot 0, and \<^verbatim>\<open>"b"\<close>
  starts at slot 1.
\<close>

lemma hash_a: "Hash [0x61] = 0xE40C292C"
  by (simp add: Hash_def Hash_abi_def static_cast_uint32_def)

lemma hash_c: "Hash [0x63] = 0xE60C2C52"
  by (simp add: Hash_def Hash_abi_def static_cast_uint32_def)

lemma hash_b: "Hash [0x62] = 0xE70C2DE5"
  by (simp add: Hash_def Hash_abi_def static_cast_uint32_def)

lemma hash_a_even: "unat (Hash [0x61]) mod 2 = 0"
  by (simp add: Hash_def Hash_abi_def static_cast_uint32_def)

lemma hash_c_even: "unat (Hash [0x63]) mod 2 = 0"
  by (simp add: Hash_def Hash_abi_def static_cast_uint32_def)

lemma hash_b_odd: "unat (Hash [0x62]) mod 2 = 1"
  by (simp add: Hash_def Hash_abi_def static_cast_uint32_def)

section \<open>The probe loop\<close>

declare probe.simps [simp del]

lemma probe_index_less: "0 < n \<Longrightarrow> probe_index n s i < n"
  by (simp add: probe_index_def)

lemma probe_step:
  assumes "i < n" "n \<le> length arr"
  shows "probe hit arr n s i =
           (if hit (arr ! probe_index n s i)
            then Inr ([probe_index n s i], Some (probe_index n s i))
            else (case probe hit arr n s (i + 1) of
                    Inl e \<Rightarrow> Inl e
                  | Inr (visited, found) \<Rightarrow> Inr (probe_index n s i # visited, found)))"
proof -
  have "probe_index n s i < length arr"
    using assms probe_index_less [of n s i] by simp
  then show ?thesis
    using assms(1) by (subst probe.simps) (simp add: slot_at_def Let_def)
qed

lemma probe_done: "\<not> i < n \<Longrightarrow> probe hit arr n s i = Inr ([], None)"
  by (subst probe.simps) simp

lemma probe_total: "n \<le> length arr \<Longrightarrow> \<exists>vs r. probe hit arr n s i = Inr (vs, r)"
proof (induction "n - i" arbitrary: i)
  case 0
  then show ?case by (simp add: probe_done)
next
  case (Suc d)
  then have i: "i < n" and d: "d = n - (i + 1)" by simp_all
  from Suc.hyps(1) [OF d Suc.prems] obtain vs r
    where "probe hit arr n s (i + 1) = Inr (vs, r)" by blast
  then show ?case
    using i Suc.prems by (simp add: probe_step)
qed

lemma probe_None:
  "n \<le> length arr \<Longrightarrow> probe hit arr n s i = Inr (vs, None) \<Longrightarrow>
   vs = map (probe_index n s) [i..<n] \<and>
   (\<forall>j. i \<le> j \<and> j < n \<longrightarrow> \<not> hit (arr ! probe_index n s j))"
proof (induction "n - i" arbitrary: i vs)
  case 0
  then show ?case by (auto simp: probe_done)
next
  case (Suc d)
  then have i: "i < n" and d: "d = n - (i + 1)" by simp_all
  obtain vs' r' where r: "probe hit arr n s (i + 1) = Inr (vs', r')"
    using probe_total [OF Suc.prems(1)] by blast
  have nohit: "\<not> hit (arr ! probe_index n s i)"
    using Suc.prems i by (auto simp: probe_step)
  then have eq: "vs = probe_index n s i # vs'" "r' = None"
    using Suc.prems i r by (simp_all add: probe_step)
  from Suc.hyps(1) [OF d Suc.prems(1), of vs'] r eq
  have ih: "vs' = map (probe_index n s) [i + 1..<n]"
    "\<forall>j. i + 1 \<le> j \<and> j < n \<longrightarrow> \<not> hit (arr ! probe_index n s j)"
    by simp_all
  have "\<not> hit (arr ! probe_index n s j)" if "i \<le> j" "j < n" for j
  proof (cases "j = i")
    case True
    then show ?thesis using nohit by simp
  next
    case False
    then have "i + 1 \<le> j" using that by simp
    then show ?thesis using ih(2) that by blast
  qed
  moreover have "vs = map (probe_index n s) [i..<n]"
    using eq(1) ih(1) i by (simp add: upt_conv_Cons)
  ultimately show ?case by blast
qed

lemma probe_Some:
  "n \<le> length arr \<Longrightarrow> probe hit arr n s i = Inr (vs, Some x) \<Longrightarrow>
   \<exists>j. i \<le> j \<and> j < n \<and> x = probe_index n s j \<and> hit (arr ! x) \<and>
       (\<forall>j'. i \<le> j' \<and> j' < j \<longrightarrow> \<not> hit (arr ! probe_index n s j')) \<and>
       vs = map (probe_index n s) [i..<Suc j]"
proof (induction "n - i" arbitrary: i vs)
  case 0
  then show ?case by (simp add: probe_done)
next
  case (Suc d)
  then have i: "i < n" and d: "d = n - (i + 1)" by simp_all
  show ?case
  proof (cases "hit (arr ! probe_index n s i)")
    case True
    then have "vs = [probe_index n s i]" "x = probe_index n s i"
      using Suc.prems i by (auto simp: probe_step)
    then show ?thesis
      using True i by (intro exI [of _ i]) auto
  next
    case False
    obtain vs' r' where r: "probe hit arr n s (i + 1) = Inr (vs', r')"
      using probe_total [OF Suc.prems(1)] by blast
    then have eq: "vs = probe_index n s i # vs'" "r' = Some x"
      using Suc.prems i False by (simp_all add: probe_step)
    from Suc.hyps(1) [OF d Suc.prems(1), of vs'] r eq obtain j where j:
      "i + 1 \<le> j" "j < n" "x = probe_index n s j" "hit (arr ! x)"
      "\<forall>j'. i + 1 \<le> j' \<and> j' < j \<longrightarrow> \<not> hit (arr ! probe_index n s j')"
      "vs' = map (probe_index n s) [i + 1..<Suc j]"
      by auto
    have "\<not> hit (arr ! probe_index n s j')" if "i \<le> j'" "j' < j" for j'
    proof (cases "j' = i")
      case True
      then show ?thesis using False by simp
    next
      case False
      then have "i + 1 \<le> j'" using that by simp
      then show ?thesis using j(5) that by blast
    qed
    moreover have "vs = map (probe_index n s) [i..<Suc j]"
      using eq(1) j(1,6) by (simp add: upt_conv_Cons)
    moreover have "i \<le> j" using j(1) by simp
    ultimately show ?thesis using j(2,3,4) by blast
  qed
qed

lemma probe_first:
  assumes "n \<le> length arr" "i \<le> j" "j < n" "hit (arr ! probe_index n s j)"
    and "\<forall>j'. i \<le> j' \<and> j' < j \<longrightarrow> \<not> hit (arr ! probe_index n s j')"
  shows "probe hit arr n s i =
         Inr (map (probe_index n s) [i..<Suc j], Some (probe_index n s j))"
proof -
  obtain vs r where r: "probe hit arr n s i = Inr (vs, r)"
    using probe_total [OF assms(1)] by blast
  show ?thesis
  proof (cases r)
    case None
    then show ?thesis
      using probe_None [OF assms(1), of hit s i vs] r assms(2,3,4) by blast
  next
    case (Some x)
    then obtain j2 where j2: "i \<le> j2" "j2 < n" "x = probe_index n s j2" "hit (arr ! x)"
      "\<forall>j'. i \<le> j' \<and> j' < j2 \<longrightarrow> \<not> hit (arr ! probe_index n s j')"
      "vs = map (probe_index n s) [i..<Suc j2]"
      using probe_Some [OF assms(1), of hit s i vs x] r by blast
    have "\<not> j2 < j" using assms(5) j2(1,3,4) by blast
    moreover have "\<not> j < j2" using j2(5) assms(2,4) by blast
    ultimately have "j2 = j" by simp
    then show ?thesis using r Some j2(3,6) by simp
  qed
qed

lemma probe_none:
  assumes "n \<le> length arr"
    and "\<forall>j. i \<le> j \<and> j < n \<longrightarrow> \<not> hit (arr ! probe_index n s j)"
  shows "probe hit arr n s i = Inr (map (probe_index n s) [i..<n], None)"
proof -
  obtain vs r where r: "probe hit arr n s i = Inr (vs, r)"
    using probe_total [OF assms(1)] by blast
  show ?thesis
  proof (cases r)
    case None
    then show ?thesis
      using probe_None [OF assms(1), of hit s i vs] r by simp
  next
    case (Some x)
    then show ?thesis
      using probe_Some [OF assms(1), of hit s i vs x] r assms(2) by blast
  qed
qed

lemma probe_visited_less:
  "probe hit arr n s i = Inr (vs, r) \<Longrightarrow> \<forall>x\<in>set vs. x < n"
proof (induction "n - i" arbitrary: i vs)
  case 0
  then show ?case by (simp add: probe_done)
next
  case (Suc d)
  then have i: "i < n" and d: "d = n - (i + 1)" by simp_all
  then have idx: "probe_index n s i < n" by (simp add: probe_index_less)
  from Suc.prems i have
    "vs = [probe_index n s i] \<or>
     (\<exists>vs'. probe hit arr n s (i + 1) = Inr (vs', r) \<and> vs = probe_index n s i # vs')"
    by (subst (asm) probe.simps) (auto simp: Let_def split: sum.splits if_splits)
  then show ?case using idx Suc.hyps(1) [OF d] by auto
qed

text \<open>
  With a capacity below \<open>2 ^ 32\<close> the index does not wrap around in \<^verbatim>\<open>size_t\<close>, and the
  probe sequence from any start passes every slot once.
\<close>

lemma probe_index_no_wrap:
  "n \<le> 2 ^ 32 \<Longrightarrow> s < n \<Longrightarrow> i < n \<Longrightarrow> probe_index n s i = (s + i) mod n"
proof -
  assume "n \<le> 2 ^ 32" "s < n" "i < n"
  then have "s + i < 2 ^ 64" by simp
  then show ?thesis by (simp add: probe_index_def)
qed

lemma probe_index_onto:
  assumes "n \<le> 2 ^ 32" "s < n" "t < n"
  shows "\<exists>j<n. probe_index n s j = t"
proof -
  define j where "j = (t + n - s) mod n"
  have jn: "j < n" using assms by (simp add: j_def)
  have "(s + j) mod n = (s + (t + n - s)) mod n"
    by (simp add: j_def mod_add_right_eq)
  also have "\<dots> = (t + n) mod n" using assms by simp
  also have "\<dots> = t" using assms by simp
  finally show ?thesis
    using jn probe_index_no_wrap [OF assms(1,2) jn] by auto
qed

lemma probe_sequence:
  assumes "n \<le> 2 ^ 32" "s < n" "m \<le> n"
  shows "map (probe_index n s) [0..<m] = map (\<lambda>i. (s + i) mod n) [0..<m]"
  using assms by (intro map_cong) (simp_all add: probe_index_no_wrap)

subsection \<open>The scan of an operation\<close>

lemma scan_eq:
  "0 < max_keys (header c) \<Longrightarrow>
   scan hit c k =
     probe hit (slots c) (max_keys (header c)) (unat (Hash k) mod max_keys (header c)) 0"
  by (simp add: scan_def)

lemma zero_capacity_traps:
  "max_keys (header c) = 0 \<Longrightarrow> scan hit c k = Inl DivisionByZero"
  by (simp add: scan_def)

lemma scan_no_error:
  "0 < max_keys (header c) \<Longrightarrow> max_keys (header c) \<le> length (slots c) \<Longrightarrow>
   \<exists>vs r. scan hit c k = Inr (vs, r)"
  using probe_total [of "max_keys (header c)" "slots c"] by (simp add: scan_eq)

lemma scan_total:
  "layout c \<Longrightarrow> 0 < max_keys (header c) \<Longrightarrow> \<exists>vs r. scan hit c k = Inr (vs, r)"
  using scan_no_error [of c hit k] by (simp add: layout_def)

lemma scan_None:
  assumes "layout c" "0 < max_keys (header c)" "scan hit c k = Inr (vs, None)"
  shows "\<forall>i<length (slots c). \<not> hit (slots c ! i)"
proof (intro allI impI)
  fix t assume t: "t < length (slots c)"
  let ?n = "max_keys (header c)" and ?s = "unat (Hash k) mod max_keys (header c)"
  have n: "?n \<le> length (slots c)" "?n \<le> 2 ^ 32" "length (slots c) = ?n"
    using assms(1) by (simp_all add: layout_def)
  have s: "?s < ?n" using assms(2) by simp
  obtain j where j: "j < ?n" "probe_index ?n ?s j = t"
    using probe_index_onto [OF n(2) s, of t] t n(3) by auto
  have "probe hit (slots c) ?n ?s 0 = Inr (vs, None)"
    using assms(2,3) by (simp add: scan_eq)
  from probe_None [OF n(1) this] j show "\<not> hit (slots c ! t)" by auto
qed

lemma scan_Some:
  assumes "layout c" "0 < max_keys (header c)" "scan hit c k = Inr (vs, Some x)"
  shows "x < length (slots c) \<and> hit (slots c ! x)"
proof -
  let ?n = "max_keys (header c)" and ?s = "unat (Hash k) mod max_keys (header c)"
  have n: "?n \<le> length (slots c)" "length (slots c) = ?n"
    using assms(1) by (simp_all add: layout_def)
  have "probe hit (slots c) ?n ?s 0 = Inr (vs, Some x)"
    using assms(2,3) by (simp add: scan_eq)
  from probe_Some [OF n(1) this] obtain j where "x = probe_index ?n ?s j" "hit (slots c ! x)"
    by blast
  then show ?thesis
    using probe_index_less [OF assms(2)] n(2) by simp
qed

lemma scan_finds:
  assumes "layout c" "0 < max_keys (header c)" "i < length (slots c)" "hit (slots c ! i)"
  shows "\<exists>vs x. scan hit c k = Inr (vs, Some x)"
proof -
  obtain vs r where r: "scan hit c k = Inr (vs, r)"
    using scan_total [OF assms(1,2)] by blast
  show ?thesis
  proof (cases r)
    case None
    then show ?thesis using scan_None [OF assms(1,2), of hit k vs] r assms(3,4) by blast
  next
    case (Some x)
    then show ?thesis using r by blast
  qed
qed

text \<open>
  What a scan locks: a prefix of the probe sequence, whole when nothing is hit, and
  ending at the hit otherwise.
\<close>

lemma scan_visits:
  assumes "layout c" "0 < max_keys (header c)" "scan hit c k = Inr (vs, r)"
  shows "\<exists>m\<le>max_keys (header c).
           vs = map (\<lambda>i. (unat (Hash k) mod max_keys (header c) + i) mod max_keys (header c))
                  [0..<m] \<and>
           (r = None \<longrightarrow> m = max_keys (header c)) \<and>
           (\<forall>x. r = Some x \<longrightarrow>
              0 < m \<and> x = (unat (Hash k) mod max_keys (header c) + (m - 1)) mod max_keys (header c) \<and>
              x < length (slots c) \<and> hit (slots c ! x))"
proof -
  let ?n = "max_keys (header c)" and ?s = "unat (Hash k) mod max_keys (header c)"
  have n: "?n \<le> length (slots c)" "?n \<le> 2 ^ 32" "length (slots c) = ?n"
    using assms(1) by (simp_all add: layout_def)
  have s: "?s < ?n" using assms(2) by simp
  have p: "probe hit (slots c) ?n ?s 0 = Inr (vs, r)"
    using assms(2,3) by (simp add: scan_eq)
  show ?thesis
  proof (cases r)
    case None
    with probe_None [OF n(1), of hit ?s 0 vs] p
    have "vs = map (probe_index ?n ?s) [0..<?n]" by simp
    then have "vs = map (\<lambda>i. (?s + i) mod ?n) [0..<?n]"
      using probe_sequence [OF n(2) s, of ?n] by simp
    then show ?thesis using None by blast
  next
    case (Some x)
    with probe_Some [OF n(1), of hit ?s 0 vs x] p obtain j where j:
      "j < ?n" "x = probe_index ?n ?s j" "hit (slots c ! x)"
      "vs = map (probe_index ?n ?s) [0..<Suc j]"
      by blast
    have "vs = map (\<lambda>i. (?s + i) mod ?n) [0..<Suc j]"
      using probe_sequence [OF n(2) s, of "Suc j"] j(1,4) by simp
    moreover have "x = (?s + (Suc j - 1)) mod ?n"
      using j(1,2) probe_index_no_wrap [OF n(2) s j(1)] by simp
    moreover have "x < length (slots c)"
      using j(2) probe_index_less [OF assms(2)] n(3) by simp
    moreover have "Suc j \<le> ?n" "0 < Suc j" using j(1) by simp_all
    ultimately show ?thesis using Some j(3) by blast
  qed
qed

section \<open>The operations, one call at a time\<close>

lemma layout_slot: "layout c \<Longrightarrow> i < length (slots c) \<Longrightarrow> slot_layout (slots c ! i)"
  by (simp add: layout_def list_all_length)

lemma layout_new: "layout (FastShmCache_new maxKeys)"
proof -
  have "unat n < 2 ^ 32" for n :: "32 word"
    using unsigned_less [of n] by simp
  then show ?thesis
    by (cases maxKeys)
       (simp_all add: layout_def FastShmCache_new_def InitializeSharedMemory_def
          list_all_length slot_layout_zero)
qed

lemma header_fetch_add: "max_keys (header (fetch_add c)) = max_keys (header c)"
  "slots (fetch_add c) = slots c"
  by (simp_all add: fetch_add_def)

lemma header_fetch_sub: "max_keys (header (fetch_sub c)) = max_keys (header c)"
  "slots (fetch_sub c) = slots c"
  by (simp_all add: fetch_sub_def)

subsection \<open>Set\<close>

lemma Set_rejects:
  "length k \<ge> MAX_KEY_SIZE \<or> length v \<ge> MAX_VALUE_SIZE \<Longrightarrow> Set c k v now = Inr (False, c)"
  by (auto simp: Set_def)

lemma Set_True:
  assumes "Set c k v now = Inr (True, c')"
  shows "\<exists>vs x. scan (set_hit k) c k = Inr (vs, Some x) \<and>
           c' = (if occupied (slots c ! x)
                 then c\<lparr>slots := (slots c)[x := write_slot (slots c ! x) k v now]\<rparr>
                 else fetch_add (c\<lparr>slots := (slots c)[x := write_slot (slots c ! x) k v now]\<rparr>)) \<and>
           length k < MAX_KEY_SIZE \<and> length v < MAX_VALUE_SIZE \<and> 0 < max_keys (header c)"
proof -
  have len: "length k < MAX_KEY_SIZE" "length v < MAX_VALUE_SIZE"
    using assms by (auto simp: Set_def split: if_splits)
  then obtain vs x where sc: "scan (set_hit k) c k = Inr (vs, Some x)"
    using assms by (auto simp: Set_def split: sum.splits option.splits)
  then have "0 < max_keys (header c)"
    by (auto simp: scan_def split: if_splits)
  moreover have "c' = (if occupied (slots c ! x)
                 then c\<lparr>slots := (slots c)[x := write_slot (slots c ! x) k v now]\<rparr>
                 else fetch_add (c\<lparr>slots := (slots c)[x := write_slot (slots c ! x) k v now]\<rparr>))"
    using assms len sc by (auto simp: Set_def Let_def)
  ultimately show ?thesis using len sc by blast
qed

lemma Set_False:
  assumes "Set c k v now = Inr (False, c')"
  shows "c' = c"
  using assms by (auto simp: Set_def Let_def split: if_splits sum.splits option.splits)

lemma Set_full:
  assumes "layout c" "0 < max_keys (header c)"
    "length k < MAX_KEY_SIZE" "length v < MAX_VALUE_SIZE"
    "\<forall>i<length (slots c). \<not> set_hit k (slots c ! i)"
  shows "Set c k v now = Inr (False, c)"
proof -
  obtain vs r where r: "scan (set_hit k) c k = Inr (vs, r)"
    using scan_total [OF assms(1,2)] by blast
  have "r = None"
  proof (cases r)
    case (Some x)
    then show ?thesis using scan_Some [OF assms(1,2), of "set_hit k" k vs x] r assms(5) by blast
  qed simp
  then show ?thesis using r assms(3,4) by (simp add: Set_def)
qed

lemma Set_succeeds:
  assumes "layout c" "0 < max_keys (header c)"
    "length k < MAX_KEY_SIZE" "length v < MAX_VALUE_SIZE"
    "i < length (slots c)" "set_hit k (slots c ! i)"
  shows "\<exists>c'. Set c k v now = Inr (True, c')"
proof -
  obtain vs x where "scan (set_hit k) c k = Inr (vs, Some x)"
    using scan_finds [OF assms(1,2,5), of "set_hit k" k] assms(6) by blast
  then show ?thesis using assms(3,4) by (simp add: Set_def Let_def)
qed

lemma Set_total:
  assumes "layout c" "0 < max_keys (header c)"
  shows "\<exists>r c'. Set c k v now = Inr (r, c')"
proof -
  obtain vs r where "scan (set_hit k) c k = Inr (vs, r)"
    using scan_total [OF assms] by blast
  then show ?thesis by (cases r) (auto simp: Set_def Let_def)
qed

lemma Set_layout:
  assumes "layout c" "Set c k v now = Inr (r, c')"
  shows "layout c'"
proof (cases r)
  case False
  then show ?thesis using assms Set_False [of c k v now c'] by simp
next
  case True
  from Set_True [of c k v now c'] assms(2) True obtain vs x where x:
    "scan (set_hit k) c k = Inr (vs, Some x)"
    "slots c' = (slots c)[x := write_slot (slots c ! x) k v now]"
    "max_keys (header c') = max_keys (header c)"
    "length k < MAX_KEY_SIZE" "length v < MAX_VALUE_SIZE" "0 < max_keys (header c)"
    by (auto simp: header_fetch_add)
  have xl: "x < length (slots c)"
    using scan_Some [OF assms(1) x(6) x(1)] by simp
  have "slot_layout (write_slot (slots c ! x) k v now)"
    using layout_slot [OF assms(1) xl] x(4,5) by (simp add: slot_layout_write)
  then show ?thesis
    using assms(1) x(2,3) xl
    by (auto simp: layout_def list_all_length nth_list_update)
qed

text \<open>The reply of \<^verbatim>\<open>Set\<close> is decided by its scan: true exactly when the scan found a slot.\<close>

lemma Set_by_scan:
  assumes "length k < MAX_KEY_SIZE" "length v < MAX_VALUE_SIZE"
    and "scan (set_hit k) c k = Inr (vs, r)"
  shows "\<exists>c'. Set c k v now = Inr (r \<noteq> None, c')"
  using assms by (cases r) (simp_all add: Set_def Let_def)

subsection \<open>Get, Has and Delete\<close>

lemma Has_iff:
  assumes "layout c" "0 < max_keys (header c)" "length k < MAX_KEY_SIZE"
  shows "Has c k = Inr (\<exists>i<length (slots c). key_hit k (slots c ! i))"
proof -
  obtain vs r where r: "scan (key_hit k) c k = Inr (vs, r)"
    using scan_total [OF assms(1,2)] by blast
  show ?thesis
  proof (cases r)
    case None
    then show ?thesis
      using scan_None [OF assms(1,2), of "key_hit k" k vs] r assms(3) by (simp add: Has_def)
  next
    case (Some x)
    then show ?thesis
      using scan_Some [OF assms(1,2), of "key_hit k" k vs x] r assms(3) by (auto simp: Has_def)
  qed
qed

lemma Has_total:
  assumes "layout c" "0 < max_keys (header c)"
  shows "\<exists>r. Has c k = Inr r"
proof -
  obtain vs r where "scan (key_hit k) c k = Inr (vs, r)"
    using scan_total [OF assms] by blast
  then show ?thesis by (cases r) (auto simp: Has_def)
qed

lemma Get_None_iff:
  assumes "layout c" "0 < max_keys (header c)" "length k < MAX_KEY_SIZE"
  shows "(Get c k = Inr None) = (\<forall>i<length (slots c). \<not> key_hit k (slots c ! i))"
proof -
  obtain vs r where r: "scan (key_hit k) c k = Inr (vs, r)"
    using scan_total [OF assms(1,2)] by blast
  show ?thesis
  proof (cases r)
    case None
    then show ?thesis
      using scan_None [OF assms(1,2), of "key_hit k" k vs] r assms(3) by (simp add: Get_def)
  next
    case (Some x)
    then show ?thesis
      using scan_Some [OF assms(1,2), of "key_hit k" k vs x] r assms(3) by (auto simp: Get_def)
  qed
qed

lemma Get_Some:
  assumes "layout c" "Get c k = Inr (Some v)"
  shows "\<exists>i<length (slots c). key_hit k (slots c ! i) \<and> v = string_of_cstr (value (slots c ! i))"
proof -
  have len: "length k < MAX_KEY_SIZE"
    using assms(2) by (auto simp: Get_def split: if_splits)
  then obtain vs x where x: "scan (key_hit k) c k = Inr (vs, Some x)"
    "v = string_of_cstr (value (slots c ! x))"
    using assms(2) by (auto simp: Get_def split: sum.splits option.splits)
  then have "0 < max_keys (header c)"
    by (auto simp: scan_def split: if_splits)
  from scan_Some [OF assms(1) this x(1)] x(2) show ?thesis by blast
qed

lemma Get_total:
  assumes "layout c" "0 < max_keys (header c)"
  shows "\<exists>r. Get c k = Inr r"
proof -
  obtain vs r where "scan (key_hit k) c k = Inr (vs, r)"
    using scan_total [OF assms] by blast
  then show ?thesis by (cases r) (simp_all add: Get_def)
qed

lemma Get_finds:
  assumes "layout c" "0 < max_keys (header c)" "length k < MAX_KEY_SIZE"
    "i < length (slots c)" "key_hit k (slots c ! i)"
  shows "\<exists>v. Get c k = Inr (Some v)"
proof -
  obtain vs x where "scan (key_hit k) c k = Inr (vs, Some x)"
    using scan_finds [OF assms(1,2,4), of "key_hit k" k] assms(5) by blast
  then show ?thesis using assms(3) by (simp add: Get_def)
qed

lemma Delete_True:
  assumes "Delete c k = Inr (True, c')"
  shows "\<exists>vs x. scan (key_hit k) c k = Inr (vs, Some x) \<and>
           c' = fetch_sub (c\<lparr>slots := (slots c)[x := erase_slot (slots c ! x)]\<rparr>) \<and>
           length k < MAX_KEY_SIZE \<and> 0 < max_keys (header c)"
proof -
  have len: "length k < MAX_KEY_SIZE"
    using assms by (auto simp: Delete_def split: if_splits)
  then obtain vs x where sc: "scan (key_hit k) c k = Inr (vs, Some x)"
    using assms by (auto simp: Delete_def split: sum.splits option.splits)
  then have "0 < max_keys (header c)"
    by (auto simp: scan_def split: if_splits)
  moreover have "c' = fetch_sub (c\<lparr>slots := (slots c)[x := erase_slot (slots c ! x)]\<rparr>)"
    using assms len sc by (auto simp: Delete_def)
  ultimately show ?thesis using len sc by blast
qed

lemma Delete_False:
  assumes "Delete c k = Inr (False, c')"
  shows "c' = c"
  using assms by (auto simp: Delete_def split: if_splits sum.splits option.splits)

lemma Delete_total:
  assumes "layout c" "0 < max_keys (header c)"
  shows "\<exists>r c'. Delete c k = Inr (r, c')"
proof -
  obtain vs r where "scan (key_hit k) c k = Inr (vs, r)"
    using scan_total [OF assms] by blast
  then show ?thesis by (cases r) (auto simp: Delete_def)
qed

lemma Delete_finds:
  assumes "layout c" "0 < max_keys (header c)" "length k < MAX_KEY_SIZE"
    "i < length (slots c)" "key_hit k (slots c ! i)"
  shows "\<exists>c'. Delete c k = Inr (True, c')"
proof -
  obtain vs x where "scan (key_hit k) c k = Inr (vs, Some x)"
    using scan_finds [OF assms(1,2,4), of "key_hit k" k] assms(5) by blast
  then show ?thesis using assms(3) by (simp add: Delete_def)
qed

lemma Delete_layout:
  assumes "layout c" "Delete c k = Inr (r, c')"
  shows "layout c'"
proof (cases r)
  case False
  then show ?thesis using assms Delete_False [of c k c'] by simp
next
  case True
  from Delete_True [of c k c'] assms(2) True obtain vs x where x:
    "scan (key_hit k) c k = Inr (vs, Some x)"
    "slots c' = (slots c)[x := erase_slot (slots c ! x)]"
    "max_keys (header c') = max_keys (header c)"
    "0 < max_keys (header c)"
    by (auto simp: header_fetch_sub)
  have xl: "x < length (slots c)"
    using scan_Some [OF assms(1) x(4) x(1)] by simp
  have "slot_layout (erase_slot (slots c ! x))"
    using layout_slot [OF assms(1) xl] by (simp add: slot_layout_erase)
  then show ?thesis
    using assms(1) x(2,3) xl
    by (auto simp: layout_def list_all_length nth_list_update)
qed

text \<open>
  What \<^verbatim>\<open>Get\<close> returns right after a successful \<^verbatim>\<open>Set\<close> of the same key: the stored C
  string, which is the value up to its first NUL byte.
\<close>

lemma Set_then_Get:
  assumes "layout c" "Set c k v now = Inr (True, c')"
  shows "Get c' k = Inr (Some (string_of_cstr v))"
proof -
  let ?n = "max_keys (header c)" and ?s = "unat (Hash k) mod max_keys (header c)"
  from Set_True [OF assms(2)] obtain vs x where x:
    "scan (set_hit k) c k = Inr (vs, Some x)"
    "slots c' = (slots c)[x := write_slot (slots c ! x) k v now]"
    "max_keys (header c') = ?n"
    "length k < MAX_KEY_SIZE" "length v < MAX_VALUE_SIZE" "0 < ?n"
    by (auto simp: header_fetch_add)
  let ?arr' = "(slots c)[x := write_slot (slots c ! x) k v now]"
  have n: "?n \<le> length (slots c)" "?n \<le> length ?arr'"
    using assms(1) by (simp_all add: layout_def)
  have xl: "x < length (slots c)"
    using scan_Some [OF assms(1) x(6) x(1)] by simp
  have "probe (set_hit k) (slots c) ?n ?s 0 = Inr (vs, Some x)"
    using x(1,6) by (simp add: scan_eq)
  from probe_Some [OF n(1) this] obtain j where j:
    "j < ?n" "x = probe_index ?n ?s j" "set_hit k (slots c ! x)"
    "\<forall>j'. 0 \<le> j' \<and> j' < j \<longrightarrow> \<not> set_hit k (slots c ! probe_index ?n ?s j')"
    by blast
  have w: "slot_layout (slots c ! x)"
    using layout_slot [OF assms(1) xl] .
  have hit: "key_hit k (?arr' ! probe_index ?n ?s j)"
    using j(2) xl w x(4,5)
    by (simp add: key_hit_iff slot_layout_write occupied_write_slot cstr_key_write_slot)
  have before: "\<not> key_hit k (?arr' ! probe_index ?n ?s j')" if "j' < j" for j'
  proof -
    have nh: "\<not> set_hit k (slots c ! probe_index ?n ?s j')"
      using j(4) that by simp
    then have "probe_index ?n ?s j' \<noteq> x" using j(3) by auto
    then show ?thesis using nh by (simp add: set_hit_cases)
  qed
  have "probe (key_hit k) ?arr' ?n ?s 0 =
          Inr (map (probe_index ?n ?s) [0..<Suc j], Some (probe_index ?n ?s j))"
    using probe_first [of ?n ?arr' 0 j "key_hit k" ?s] n(2) j(1) hit before by simp
  then have "scan (key_hit k) c' k =
          Inr (map (probe_index ?n ?s) [0..<Suc j], Some x)"
    using x(2,3,6) j(2) by (simp add: scan_eq)
  then show ?thesis
    using x(2,4,5) xl w by (simp add: Get_def cstr_value_write_slot)
qed

subsection \<open>Keys, Entries and Clear\<close>

declare Keys_loop.simps [simp del] Entries_loop.simps [simp del] Clear_loop.simps [simp del]

lemma Keys_loop_result:
  "n \<le> length arr \<Longrightarrow>
   Keys_loop arr n i =
     Inr (map (\<lambda>s. string_of_cstr (key s)) (filter occupied (drop i (take n arr))))"
proof (induction "n - i" arbitrary: i)
  case 0
  then show ?case by (subst Keys_loop.simps) simp
next
  case (Suc d)
  then have i: "i < n" and d: "d = n - (i + 1)" by simp_all
  have "drop i (take n arr) = arr ! i # drop (i + 1) (take n arr)"
    using i Suc.prems by (simp add: Cons_nth_drop_Suc [symmetric])
  then show ?case
    using i Suc.prems Suc.hyps(1) [OF d Suc.prems]
    by (subst Keys_loop.simps) (simp add: slot_at_def)
qed

lemma Entries_loop_result:
  "n \<le> length arr \<Longrightarrow>
   Entries_loop arr n i =
     Inr (map (\<lambda>s. (string_of_cstr (key s), string_of_cstr (value s)))
            (filter occupied (drop i (take n arr))))"
proof (induction "n - i" arbitrary: i)
  case 0
  then show ?case by (subst Entries_loop.simps) simp
next
  case (Suc d)
  then have i: "i < n" and d: "d = n - (i + 1)" by simp_all
  have "drop i (take n arr) = arr ! i # drop (i + 1) (take n arr)"
    using i Suc.prems by (simp add: Cons_nth_drop_Suc [symmetric])
  then show ?case
    using i Suc.prems Suc.hyps(1) [OF d Suc.prems]
    by (subst Entries_loop.simps) (simp add: slot_at_def)
qed

lemma Keys_result:
  "layout c \<Longrightarrow> Keys c = Inr (map (\<lambda>s. string_of_cstr (key s)) (filter occupied (slots c)))"
  using Keys_loop_result [of "max_keys (header c)" "slots c" 0]
  by (simp add: Keys_def layout_def)

lemma Entries_result:
  "layout c \<Longrightarrow>
   Entries c = Inr (map (\<lambda>s. (string_of_cstr (key s), string_of_cstr (value s)))
                     (filter occupied (slots c)))"
  using Entries_loop_result [of "max_keys (header c)" "slots c" 0]
  by (simp add: Entries_def layout_def)

text \<open>The loop of \<^verbatim>\<open>Clear\<close> resets the occupied slots from \<open>i\<close> on and leaves the others.\<close>

lemma Clear_loop_result:
  "n \<le> length arr \<Longrightarrow>
   \<exists>arr'. Clear_loop arr n i = Inr arr' \<and> length arr' = length arr \<and>
     (\<forall>j<length arr. arr' ! j =
        (if i \<le> j \<and> j < n \<and> occupied (arr ! j) then erase_slot (arr ! j) else arr ! j))"
proof (induction "n - i" arbitrary: arr i)
  case 0
  then show ?case by (subst Clear_loop.simps) auto
next
  case (Suc d)
  then have i: "i < n" and d: "d = n - (i + 1)" by simp_all
  let ?arr1 = "if occupied (arr ! i) then arr[i := erase_slot (arr ! i)] else arr"
  have len1: "length ?arr1 = length arr" by simp
  then have n1: "n \<le> length ?arr1" using Suc.prems by simp
  from Suc.hyps(1) [OF d n1] obtain arr' where arr':
    "Clear_loop ?arr1 n (i + 1) = Inr arr'" "length arr' = length ?arr1"
    "\<forall>j<length ?arr1. arr' ! j =
        (if i + 1 \<le> j \<and> j < n \<and> occupied (?arr1 ! j) then erase_slot (?arr1 ! j) else ?arr1 ! j)"
    by blast
  have step: "Clear_loop arr n i = Clear_loop ?arr1 n (i + 1)"
    using i Suc.prems by (subst Clear_loop.simps) (simp add: slot_at_def)
  have "arr' ! j =
        (if i \<le> j \<and> j < n \<and> occupied (arr ! j) then erase_slot (arr ! j) else arr ! j)"
    if j: "j < length arr" for j
  proof (cases "j = i")
    case True
    then show ?thesis using arr'(3) j i by (simp add: occupied_erase_slot)
  next
    case False
    then have "?arr1 ! j = arr ! j" by simp
    moreover have "(i + 1 \<le> j) = (i \<le> j)" using False by auto
    ultimately show ?thesis using arr'(3) j len1 by simp
  qed
  then show ?case using step arr'(1,2) len1 by simp
qed

lemma Clear_result:
  assumes "layout c"
  shows "\<exists>arr'. Clear c = Inr (c\<lparr>slots := arr', header := (header c)\<lparr>num_entries := 0\<rparr>\<rparr>) \<and>
           length arr' = length (slots c) \<and>
           (\<forall>j<length (slots c). arr' ! j =
              (if occupied (slots c ! j) then erase_slot (slots c ! j) else slots c ! j))"
proof -
  have n: "max_keys (header c) \<le> length (slots c)" "length (slots c) = max_keys (header c)"
    using assms by (simp_all add: layout_def)
  from Clear_loop_result [OF n(1), of 0] obtain arr' where
    "Clear_loop (slots c) (max_keys (header c)) 0 = Inr arr'" "length arr' = length (slots c)"
    "\<forall>j<length (slots c). arr' ! j =
        (if 0 \<le> j \<and> j < max_keys (header c) \<and> occupied (slots c ! j)
         then erase_slot (slots c ! j) else slots c ! j)"
    by blast
  then have "Clear c = Inr (c\<lparr>slots := arr', header := (header c)\<lparr>num_entries := 0\<rparr>\<rparr>) \<and>
           length arr' = length (slots c) \<and>
           (\<forall>j<length (slots c). arr' ! j =
              (if occupied (slots c ! j) then erase_slot (slots c ! j) else slots c ! j))"
    using n(2) by (simp add: Clear_def)
  then show ?thesis by blast
qed

section \<open>Reachable tables\<close>

lemma filter_update_length:
  "i < length xs \<Longrightarrow>
   length (filter P (xs[i := y])) + (if P (xs ! i) then 1 else 0) =
   length (filter P xs) + (if P y then 1 else 0)"
proof (induction xs arbitrary: i)
  case Nil
  then show ?case by simp
next
  case (Cons x xs)
  show ?case
  proof (cases i)
    case 0
    then show ?thesis by simp
  next
    case (Suc j)
    then show ?thesis using Cons.IH [of j] Cons.prems by simp
  qed
qed

lemma filter_length_le: "length (filter P xs) \<le> length xs"
  by simp

lemma counter_add:
  fixes w :: "64 word"
  assumes "unat w < 2 ^ 32"
  shows "unat (w + 1) = unat w + 1"
proof -
  have "unat w + unat (1 :: 64 word) < 2 ^ LENGTH(64)" using assms by simp
  then show ?thesis by (simp add: unat_add_lem [THEN iffD1])
qed

lemma counter_sub:
  fixes w :: "64 word"
  assumes "0 < unat w"
  shows "unat (w - 1) = unat w - 1"
proof -
  have "w \<noteq> 0" using assms by auto
  then show ?thesis by (simp add: unat_minus_one)
qed

lemma slot_inv_zero: "slot_inv zero_slot"
  by (simp add: slot_inv_def slot_layout_zero) (simp add: zero_slot_def)

lemma slot_inv_write:
  "slot_inv s \<Longrightarrow> length k < MAX_KEY_SIZE \<Longrightarrow> length v < MAX_VALUE_SIZE \<Longrightarrow>
   slot_inv (write_slot s k v now)"
  by (simp add: slot_inv_def slot_layout_write occupied_write_slot)

lemma erase_slot_zeroed:
  "slot_layout s \<Longrightarrow>
   key (erase_slot s) = replicate MAX_KEY_SIZE 0 \<and>
   value (erase_slot s) = replicate MAX_VALUE_SIZE 0"
  by (simp add: erase_slot_def memset_def slot_layout_def)

lemma slot_inv_erase: "slot_layout s \<Longrightarrow> slot_inv (erase_slot s)"
  by (simp add: slot_inv_def slot_layout_erase erase_slot_zeroed)

lemma table_inv_new: "table_inv (FastShmCache_new maxKeys)"
  using layout_new [of maxKeys]
  by (simp add: table_inv_def)
     (simp add: FastShmCache_new_def InitializeSharedMemory_def list_all_length
        slot_inv_zero occupied_zero_slot)

lemma table_inv_count_le:
  "table_inv c \<Longrightarrow> unat (num_entries (header c)) \<le> max_keys (header c)"
  using filter_length_le [of occupied "slots c"] by (simp add: table_inv_def layout_def)

lemma Set_inv:
  assumes "table_inv c" "Set c k v now = Inr (r, c')"
  shows "table_inv c'"
proof (cases r)
  case False
  then show ?thesis using assms Set_False [of c k v now c'] by simp
next
  case True
  have lay: "layout c" using assms(1) by (simp add: table_inv_def)
  have st: "Set c k v now = Inr (True, c')" using assms(2) True by simp
  from Set_True [OF st] obtain vs x where x:
    "scan (set_hit k) c k = Inr (vs, Some x)"
    "c' = (if occupied (slots c ! x)
           then c\<lparr>slots := (slots c)[x := write_slot (slots c ! x) k v now]\<rparr>
           else fetch_add (c\<lparr>slots := (slots c)[x := write_slot (slots c ! x) k v now]\<rparr>))"
    "length k < MAX_KEY_SIZE" "length v < MAX_VALUE_SIZE" "0 < max_keys (header c)"
    by blast
  let ?w = "write_slot (slots c ! x) k v now"
  have xl: "x < length (slots c)"
    using scan_Some [OF lay x(5) x(1)] by simp
  have sl: "slots c' = (slots c)[x := ?w]"
    using x(2) by (simp add: header_fetch_add)
  have "slot_inv (slots c ! x)"
    using assms(1) xl by (simp add: table_inv_def list_all_length)
  then have "slot_inv ?w" using x(3,4) by (rule slot_inv_write)
  then have slots: "list_all slot_inv (slots c')"
    using assms(1) xl sl by (auto simp: table_inv_def list_all_length nth_list_update)
  have cnt: "length (filter occupied (slots c')) + (if occupied (slots c ! x) then 1 else 0) =
             length (filter occupied (slots c)) + 1"
    using filter_update_length [OF xl, of occupied ?w] sl by (simp add: occupied_write_slot)
  have small: "unat (num_entries (header c)) < 2 ^ 32"
    using table_inv_count_le [OF assms(1)] lay by (simp add: layout_def)
  have "unat (num_entries (header c')) = length (filter occupied (slots c'))"
  proof (cases "occupied (slots c ! x)")
    case True
    then show ?thesis using cnt x(2) assms(1) by (simp add: table_inv_def)
  next
    case False
    then have "num_entries (header c') = num_entries (header c) + 1"
      using x(2) by (simp add: fetch_add_def)
    then show ?thesis
      using False cnt counter_add [OF small] assms(1) by (simp add: table_inv_def)
  qed
  then show ?thesis
    using Set_layout [OF lay assms(2)] slots by (simp add: table_inv_def)
qed

lemma Delete_inv:
  assumes "table_inv c" "Delete c k = Inr (r, c')"
  shows "table_inv c'"
proof (cases r)
  case False
  then show ?thesis using assms Delete_False [of c k c'] by simp
next
  case True
  have lay: "layout c" using assms(1) by (simp add: table_inv_def)
  have st: "Delete c k = Inr (True, c')" using assms(2) True by simp
  from Delete_True [OF st] obtain vs x where x:
    "scan (key_hit k) c k = Inr (vs, Some x)"
    "c' = fetch_sub (c\<lparr>slots := (slots c)[x := erase_slot (slots c ! x)]\<rparr>)"
    "0 < max_keys (header c)"
    by blast
  have xl: "x < length (slots c)" and occ: "occupied (slots c ! x)"
    using scan_Some [OF lay x(3) x(1)] by (simp_all add: key_hit_def)
  have sl: "slots c' = (slots c)[x := erase_slot (slots c ! x)]"
    using x(2) by (simp add: header_fetch_sub)
  have "slot_inv (erase_slot (slots c ! x))"
    using layout_slot [OF lay xl] by (rule slot_inv_erase)
  then have slots: "list_all slot_inv (slots c')"
    using assms(1) xl sl by (auto simp: table_inv_def list_all_length nth_list_update)
  have cnt: "length (filter occupied (slots c')) + 1 = length (filter occupied (slots c))"
    using filter_update_length [OF xl, of occupied "erase_slot (slots c ! x)"] sl occ
    by (simp add: occupied_erase_slot)
  then have "0 < length (filter occupied (slots c))" by arith
  then have pos: "0 < unat (num_entries (header c))"
    using assms(1) by (simp only: table_inv_def)
  have "num_entries (header c') = num_entries (header c) - 1"
    using x(2) by (simp add: fetch_sub_def)
  then have "unat (num_entries (header c')) = length (filter occupied (slots c'))"
    using cnt counter_sub [OF pos] assms(1) by (simp add: table_inv_def)
  then show ?thesis
    using Delete_layout [OF lay assms(2)] slots by (simp add: table_inv_def)
qed

lemma Clear_inv:
  assumes "table_inv c" "Clear c = Inr c'"
  shows "table_inv c' \<and> (\<forall>s\<in>set (slots c'). \<not> occupied s) \<and> num_entries (header c') = 0"
proof -
  have lay: "layout c" using assms(1) by (simp add: table_inv_def)
  from Clear_result [OF lay] assms(2) obtain arr' where a:
    "c' = c\<lparr>slots := arr', header := (header c)\<lparr>num_entries := 0\<rparr>\<rparr>"
    "length arr' = length (slots c)"
    "\<forall>j<length (slots c). arr' ! j =
        (if occupied (slots c ! j) then erase_slot (slots c ! j) else slots c ! j)"
    by auto
  have inv: "slot_inv (arr' ! j) \<and> \<not> occupied (arr' ! j)" if "j < length arr'" for j
    using that a(2,3) assms(1) layout_slot [OF lay, of j]
    by (simp add: table_inv_def list_all_length slot_inv_erase occupied_erase_slot)
  then have free: "\<forall>s\<in>set arr'. \<not> occupied s" and sinv: "list_all slot_inv arr'"
    by (auto simp: in_set_conv_nth list_all_length)
  then have "filter occupied arr' = []" by (simp add: filter_empty_conv)
  moreover have "layout c'"
    using lay a(1,2) sinv by (simp add: layout_def list_all_length slot_inv_def)
  ultimately show ?thesis using a(1) sinv free by (simp add: table_inv_def)
qed

lemma reachable_inv: "reachable c \<Longrightarrow> table_inv c"
proof (induction rule: reachable.induct)
  case (fresh maxKeys)
  show ?case by (rule table_inv_new)
next
  case (after_Set c k v now r c')
  then show ?case using Set_inv by blast
next
  case (after_Delete c k r c')
  then show ?case using Delete_inv by blast
next
  case (after_Clear c c')
  then show ?case using Clear_inv by blast
qed

text \<open>
  On every reachable table \<^verbatim>\<open>Size\<close> is the number of occupied slots, which is at most the
  capacity, and \<^verbatim>\<open>Keys\<close> lists the key of each occupied slot.
\<close>

lemma Size_counts_occupied_slots:
  assumes "reachable c"
  shows "Size c = length (filter occupied (slots c)) \<and> Size c \<le> max_keys (header c) \<and>
         (\<exists>ks. Keys c = Inr ks \<and> length ks = Size c)"
proof -
  have inv: "table_inv c" using assms by (rule reachable_inv)
  then have "layout c" by (simp add: table_inv_def)
  then show ?thesis
    using inv table_inv_count_le [OF inv] by (simp add: Size_def table_inv_def Keys_result)
qed

subsection \<open>Runs of calls\<close>

lemma invoke_reachable:
  assumes "reachable c" "invoke c x = Inr (r, c')"
  shows "reachable c'"
proof (cases x)
  case (Call_set k v now)
  then show ?thesis
    using assms by (auto split: sum.splits intro: reachable.after_Set)
next
  case (Call_delete k)
  then show ?thesis
    using assms by (auto split: sum.splits intro: reachable.after_Delete)
next
  case Call_clear
  then show ?thesis
    using assms by (auto split: sum.splits intro: reachable.after_Clear)
qed (use assms in \<open>auto split: sum.splits\<close>)

lemma run_reachable:
  "reachable c \<Longrightarrow> run c xs = Inr (rs, c') \<Longrightarrow> reachable c'"
proof (induction xs arbitrary: c rs)
  case Nil
  then show ?case by simp
next
  case (Cons x xs)
  from Cons.prems(2) obtain r c1 rs1 where
    "invoke c x = Inr (r, c1)" "run c1 xs = Inr (rs1, c')"
    by (auto split: sum.splits)
  then show ?case using Cons.IH invoke_reachable [OF Cons.prems(1)] by blast
qed

lemma state_after_reachable:
  "reachable c \<Longrightarrow> state_after c xs = Inr c' \<Longrightarrow> reachable c'"
  using run_reachable [of c xs _ c']
  by (auto simp: state_after_def split: sum.splits)

section \<open>Evaluating calls on small tables\<close>

lemma new_1:
  "FastShmCache_new (Some 1) =
     \<lparr>header = \<lparr>max_keys = 1, num_entries = 0\<rparr>, slots = [zero_slot]\<rparr>"
  by (simp add: FastShmCache_new_def InitializeSharedMemory_def)

lemma new_2:
  "FastShmCache_new (Some 2) =
     \<lparr>header = \<lparr>max_keys = 2, num_entries = 0\<rparr>, slots = [zero_slot, zero_slot]\<rparr>"
proof -
  have "replicate 2 zero_slot = [zero_slot, zero_slot]"
    by (simp add: numeral_2_eq_2)
  then show ?thesis
    by (simp add: FastShmCache_new_def InitializeSharedMemory_def)
qed

lemmas eval_ops = Set_def Get_def Delete_def Has_def Keys_def Entries_def Clear_def Size_def
  scan_def probe.simps Keys_loop.simps Entries_loop.simps Clear_loop.simps
  probe_index_def slot_at_def Let_def fetch_add_def fetch_sub_def replies_def state_after_def

lemmas eval_slots = set_hit_iff key_hit_iff slot_layout_zero slot_layout_write slot_layout_erase
  occupied_zero_slot occupied_write_slot occupied_erase_slot
  cstr_key_write_slot cstr_value_write_slot string_of_cstr_Nil string_of_cstr_Cons

text \<open>
  The scenario the specification lists among its testable properties, on a table of
  capacity 2, with the replies it gives.
\<close>

lemma specification_scenario:
  "replies (FastShmCache_new (Some 2))
     [Call_set [0x61] [0x31] 1, Call_set [0x62] [0x32] 2, Call_set [0x63] [0x33] 3, Call_size,
      Call_delete [0x61], Call_set [0x63] [0x33] 4, Call_size, Call_get [0x62]] =
   Inr [Boolean True, Boolean True, Boolean False, Number 2,
        Boolean True, Boolean True, Number 2, String_or_undefined (Some [0x32])]"
  by (simp add: new_2 eval_ops eval_slots hash_a_even hash_b_odd hash_c_even)

lemma one_entry_table_run:
  "state_after (FastShmCache_new (Some 1)) [Call_set [0x6B] [0x61, 0x62] 7] =
   Inr one_entry_table"
  by (simp add: one_entry_table_def new_1 eval_ops eval_slots)

lemma first_slot_table_run:
  "state_after (FastShmCache_new (Some 2)) [Call_set [0x61] [0x31] 1] = Inr first_slot_table"
  by (simp add: first_slot_table_def new_2 eval_ops eval_slots hash_a_even)

lemma hole_table_run:
  "state_after (FastShmCache_new (Some 2))
     [Call_set [0x61] [0x31] 1, Call_set [0x63] [0x33] 2, Call_delete [0x61]] =
   Inr hole_table"
  by (simp add: hole_table_def new_2 eval_ops eval_slots hash_a_even hash_c_even)

lemma duplicate_table_run:
  "state_after hole_table [Call_set [0x63] [0x34] 3] = Inr duplicate_table"
  by (simp add: hole_table_def duplicate_table_def eval_ops eval_slots hash_c_even)

lemmas eval_bytes = key_write_slot_bytes value_write_slot_bytes erase_slot_zeroed
  slot_layout_zero slot_layout_write slot_layout_erase occupied_zero_slot occupied_write_slot
  occupied_erase_slot string_of_cstr_Nil string_of_cstr_Cons

text \<open>The bytes held by the example tables.\<close>

lemma one_entry_table_contents:
  "map occupied (slots one_entry_table) = [True] \<and>
   map key (slots one_entry_table) = [0x6B # replicate 63 0] \<and>
   map value (slots one_entry_table) = [0x61 # 0x62 # replicate 254 0]"
  by (simp add: one_entry_table_def eval_bytes)

lemma first_slot_table_contents:
  "map occupied (slots first_slot_table) = [True, False] \<and>
   map key (slots first_slot_table) = [0x61 # replicate 63 0, replicate 64 0] \<and>
   map value (slots first_slot_table) = [0x31 # replicate 255 0, replicate 256 0]"
  by (simp add: first_slot_table_def eval_bytes) (simp add: zero_slot_def)

lemma hole_table_contents:
  "map occupied (slots hole_table) = [False, True] \<and>
   map key (slots hole_table) = [replicate 64 0, 0x63 # replicate 63 0] \<and>
   map value (slots hole_table) = [replicate 256 0, 0x33 # replicate 255 0]"
  by (simp add: hole_table_def eval_bytes)

lemma duplicate_table_contents:
  "map occupied (slots duplicate_table) = [True, True] \<and>
   map key (slots duplicate_table) = [0x63 # replicate 63 0, 0x63 # replicate 63 0] \<and>
   map value (slots duplicate_table) = [0x34 # replicate 255 0, 0x33 # replicate 255 0]"
  by (simp add: duplicate_table_def eval_bytes)

lemma reachable_one_entry_table: "reachable one_entry_table"
  using state_after_reachable [OF reachable.fresh one_entry_table_run] .

lemma reachable_first_slot_table: "reachable first_slot_table"
  using state_after_reachable [OF reachable.fresh first_slot_table_run] .

lemma reachable_hole_table: "reachable hole_table"
  using state_after_reachable [OF reachable.fresh hole_table_run] .

lemma reachable_duplicate_table: "reachable duplicate_table"
  using state_after_reachable [OF reachable_hole_table duplicate_table_run] .

section \<open>Filling a table\<close>

lemma some_slot_free:
  assumes "length (filter P xs) < length xs"
  shows "\<exists>i<length xs. \<not> P (xs ! i)"
proof (rule ccontr)
  assume "\<not> (\<exists>i<length xs. \<not> P (xs ! i))"
  then have "\<forall>x\<in>set xs. P x" by (auto simp: in_set_conv_nth)
  then have "filter P xs = xs" by simp
  then show False using assms by simp
qed

lemma all_slots_taken:
  assumes "length (filter P xs) = length xs" "i < length xs"
  shows "P (xs ! i)"
proof (rule ccontr)
  assume "\<not> P (xs ! i)"
  then have "length (filter P xs) < length xs"
    using assms(2) length_filter_less [of "xs ! i" xs P] by simp
  then show False using assms(1) by simp
qed

lemma stores_empty:
  assumes "reachable c" "Size c = 0"
  shows "stores c []"
proof -
  have inv: "table_inv c" using assms(1) by (rule reachable_inv)
  then have "filter occupied (slots c) = []"
    using assms(2) by (simp add: table_inv_def Size_def)
  then have "\<forall>i<length (slots c). \<not> occupied (slots c ! i)"
    by (simp add: filter_empty_conv)
  then show ?thesis
    using inv \<open>filter occupied (slots c) = []\<close> by (simp add: stores_def)
qed

lemma fill_step:
  assumes st: "stores c es" and room: "length es < max_keys (header c)"
    and len: "length k < MAX_KEY_SIZE" "length v < MAX_VALUE_SIZE"
    and new: "string_of_cstr k \<notin> (\<lambda>e. string_of_cstr (fst e)) ` set es"
  shows "\<exists>c'. Set c k v now = Inr (True, c') \<and> stores c' (es @ [(k, v, now)]) \<and>
              max_keys (header c') = max_keys (header c)"
proof -
  have inv: "table_inv c" and cnt: "length (filter occupied (slots c)) = length es"
    and held: "\<And>i. i < length (slots c) \<Longrightarrow> occupied (slots c ! i) \<Longrightarrow>
         \<exists>e\<in>set es. string_of_cstr (key (slots c ! i)) = string_of_cstr (fst e) \<and>
                     string_of_cstr (value (slots c ! i)) = string_of_cstr (fst (snd e))"
    and found: "\<And>e. e \<in> set es \<Longrightarrow> \<exists>i<length (slots c). key_hit (fst e) (slots c ! i)"
    using st by (auto simp: stores_def)
  have lay: "layout c" using inv by (simp add: table_inv_def)
  have pos: "0 < max_keys (header c)" using room by simp
  have n: "length (slots c) = max_keys (header c)" using lay by (simp add: layout_def)
  have nohit: "\<not> key_hit k (slots c ! i)" if i: "i < length (slots c)" for i
  proof
    assume h: "key_hit k (slots c ! i)"
    then have "occupied (slots c ! i)"
      "string_of_cstr (key (slots c ! i)) = string_of_cstr k"
      using key_hit_iff [OF layout_slot [OF lay i] len(1)] by simp_all
    with held [OF i] new show False by force
  qed
  obtain f where f: "f < length (slots c)" "\<not> occupied (slots c ! f)"
    using some_slot_free [of occupied "slots c"] cnt room n by auto
  then have "set_hit k (slots c ! f)" by (simp add: set_hit_def)
  from Set_succeeds [OF lay pos len f(1) this] obtain c' where
    c': "Set c k v now = Inr (True, c')" by blast
  from Set_True [OF c'] obtain vs x where x:
    "scan (set_hit k) c k = Inr (vs, Some x)"
    "c' = (if occupied (slots c ! x)
           then c\<lparr>slots := (slots c)[x := write_slot (slots c ! x) k v now]\<rparr>
           else fetch_add (c\<lparr>slots := (slots c)[x := write_slot (slots c ! x) k v now]\<rparr>))"
    by blast
  let ?w = "write_slot (slots c ! x) k v now"
  have xl: "x < length (slots c)" and xh: "set_hit k (slots c ! x)"
    using scan_Some [OF lay pos x(1)] by simp_all
  have xfree: "\<not> occupied (slots c ! x)"
    using xh nohit [OF xl] by (simp add: set_hit_cases)
  have sl: "slots c' = (slots c)[x := ?w]" and mk: "max_keys (header c') = max_keys (header c)"
    using x(2) by (simp_all add: header_fetch_add)
  have wl: "slot_layout (slots c ! x)" using layout_slot [OF lay xl] .
  have wk: "string_of_cstr (key ?w) = string_of_cstr k"
    and wv: "string_of_cstr (value ?w) = string_of_cstr v"
    and wo: "occupied ?w" and wh: "key_hit k ?w"
    using wl len
    by (simp_all add: cstr_key_write_slot cstr_value_write_slot occupied_write_slot
        key_hit_iff slot_layout_write)
  have inv': "table_inv c'" using Set_inv [OF inv c'] .
  have cnt': "length (filter occupied (slots c')) = length (es @ [(k, v, now)])"
    using filter_update_length [OF xl, of occupied ?w] sl xfree wo cnt by simp
  have held': "\<exists>e\<in>set (es @ [(k, v, now)]).
        string_of_cstr (key (slots c' ! i)) = string_of_cstr (fst e) \<and>
        string_of_cstr (value (slots c' ! i)) = string_of_cstr (fst (snd e))"
    if i: "i < length (slots c')" "occupied (slots c' ! i)" for i
  proof (cases "i = x")
    case True
    then show ?thesis using sl xl wk wv by simp
  next
    case False
    then have "slots c' ! i = slots c ! i" using sl by simp
    then show ?thesis using held [of i] i sl by auto
  qed
  have found': "\<exists>i<length (slots c'). key_hit (fst e) (slots c' ! i)"
    if e: "e \<in> set (es @ [(k, v, now)])" for e
  proof (cases "e \<in> set es")
    case True
    from found [OF True] obtain i where i: "i < length (slots c)" "key_hit (fst e) (slots c ! i)"
      by blast
    then have "i \<noteq> x" using xfree by (auto simp: key_hit_def)
    then have "slots c' ! i = slots c ! i" using sl by simp
    then show ?thesis using i sl by auto
  next
    case False
    then have "e = (k, v, now)" using e by simp
    then show ?thesis using sl xl wh by auto
  qed
  have "stores c' (es @ [(k, v, now)])"
    unfolding stores_def using inv' cnt' held' found' by blast
  then show ?thesis using c' mk by blast
qed

lemma fill:
  assumes "stores c es" "length es + length todo \<le> max_keys (header c)"
    and "\<forall>e\<in>set todo. length (fst e) < MAX_KEY_SIZE \<and> length (fst (snd e)) < MAX_VALUE_SIZE"
    and "distinct (map (\<lambda>e. string_of_cstr (fst e)) (es @ todo))"
  shows "\<exists>c'. run c (set_calls todo) = Inr (replicate (length todo) (Boolean True), c') \<and>
              stores c' (es @ todo) \<and> max_keys (header c') = max_keys (header c)"
  using assms
proof (induction todo arbitrary: c es)
  case Nil
  then show ?case by (simp add: set_calls_def)
next
  case (Cons e todo)
  obtain k v now where e: "e = (k, v, now)" by (cases e) auto
  have room: "length es < max_keys (header c)" using Cons.prems(2) by simp
  have len: "length k < MAX_KEY_SIZE" "length v < MAX_VALUE_SIZE"
    using Cons.prems(3) e by simp_all
  have new: "string_of_cstr k \<notin> (\<lambda>e. string_of_cstr (fst e)) ` set es"
    using Cons.prems(4) e by auto
  from fill_step [OF Cons.prems(1) room len new, of now] obtain c1 where c1:
    "Set c k v now = Inr (True, c1)" "stores c1 (es @ [(k, v, now)])"
    "max_keys (header c1) = max_keys (header c)"
    by blast
  have "\<exists>c'. run c1 (set_calls todo) = Inr (replicate (length todo) (Boolean True), c') \<and>
              stores c' ((es @ [(k, v, now)]) @ todo) \<and>
              max_keys (header c') = max_keys (header c1)"
    using Cons.prems(2,3,4) c1(2,3) e by (intro Cons.IH) simp_all
  then obtain c' where c':
    "run c1 (set_calls todo) = Inr (replicate (length todo) (Boolean True), c')"
    "stores c' (es @ e # todo)" "max_keys (header c') = max_keys (header c1)"
    using e by auto
  have "run c (set_calls (e # todo)) =
          Inr (replicate (length (e # todo)) (Boolean True), c')"
    using c1(1) c'(1) e unfolding set_calls_def by simp
  then show ?case using c'(2,3) c1(3) by auto
qed

section \<open>The claims\<close>

subsection \<open>C1: keys of occupied slots are unique\<close>

text \<open>
  C1. The claim fails on the code. After \<^verbatim>\<open>set("a", "1")\<close>, \<^verbatim>\<open>set("c", "3")\<close>,
  \<^verbatim>\<open>delete("a")\<close> and \<^verbatim>\<open>set("c", "4")\<close> on a table of capacity 2, both slots are occupied
  and hold the same key, \<^verbatim>\<open>"c"\<close>: the last \<^verbatim>\<open>Set\<close> took the hole at slot 0 without looking
  at slot 1.
\<close>

theorem key_stored_twice:
  "state_after (FastShmCache_new (Some 2))
     [Call_set [0x61] [0x31] 1, Call_set [0x63] [0x33] 2, Call_delete [0x61],
      Call_set [0x63] [0x34] 3] = Inr duplicate_table \<and>
   reachable duplicate_table \<and>
   map occupied (slots duplicate_table) = [True, True] \<and>
   map key (slots duplicate_table) = [0x63 # replicate 63 0, 0x63 # replicate 63 0] \<and>
   Keys duplicate_table = Inr [[0x63], [0x63]]"
proof -
  have "state_after (FastShmCache_new (Some 2))
     [Call_set [0x61] [0x31] 1, Call_set [0x63] [0x33] 2, Call_delete [0x61],
      Call_set [0x63] [0x34] 3] = Inr duplicate_table"
    by (simp add: duplicate_table_def new_2 eval_ops eval_slots hash_a_even hash_c_even)
  moreover have "Keys duplicate_table = Inr [[0x63], [0x63]]"
    by (simp add: duplicate_table_def eval_ops eval_slots)
  ultimately show ?thesis
    using reachable_duplicate_table duplicate_table_contents by simp
qed

subsection \<open>C2: delete after set\<close>

text \<open>
  C2. The claim fails on the code, by the same defect. On the reachable table with the
  hole, \<^verbatim>\<open>set("c", "4")\<close> returns true and \<^verbatim>\<open>delete("c")\<close> returns true, and then \<^verbatim>\<open>has("c")\<close>
  is still true and \<^verbatim>\<open>get("c")\<close> returns the old value \<^verbatim>\<open>"3"\<close>.
\<close>

theorem delete_after_set_leaves_key:
  "reachable hole_table \<and>
   replies hole_table
     [Call_set [0x63] [0x34] 3, Call_delete [0x63], Call_has [0x63], Call_get [0x63]] =
   Inr [Boolean True, Boolean True, Boolean True, String_or_undefined (Some [0x33])]"
  using reachable_hole_table
  by (simp add: hole_table_def eval_ops eval_slots hash_c_even)

subsection \<open>C3: the scans and holes\<close>

text \<open>
  C3 (as amended). \<^verbatim>\<open>Get\<close>, \<^verbatim>\<open>Delete\<close> and \<^verbatim>\<open>Has\<close> scan with the test \<open>key_hit\<close>: from the
  start index \<open>hash mod capacity\<close> they lock the slots \<open>(start + i) mod capacity\<close> for
  \<open>i = 0, 1, \<dots>\<close> in order, all \<open>capacity\<close> of them unless the scan stops, and it stops
  only at an occupied slot that holds the key, never at an unoccupied one; their replies
  are read off the result of that scan. \<^verbatim>\<open>Set\<close> scans with the test \<open>set_hit\<close> and locks
  slots of the same sequence, in the same order: its scan ends at the slot it found, or
  has locked all \<open>capacity\<close> slots; \<^verbatim>\<open>Set\<close> returns true in the first case and false in
  the second, so a call of \<^verbatim>\<open>Set\<close> that returns false has locked the whole sequence. So a
  key stored in any slot, also one past a hole, is found by \<^verbatim>\<open>Has\<close>, \<^verbatim>\<open>Get\<close> and \<^verbatim>\<open>Delete\<close>.
\<close>

theorem lookups_scan_past_holes:
  assumes "layout c" "0 < max_keys (header c)" "length k < MAX_KEY_SIZE"
  shows "(\<exists>vs r m. scan (key_hit k) c k = Inr (vs, r) \<and> m \<le> max_keys (header c) \<and>
            vs = map (\<lambda>i. (unat (Hash k) mod max_keys (header c) + i) mod max_keys (header c))
                   [0..<m] \<and>
            (case r of
               None \<Rightarrow> m = max_keys (header c)
             | Some x \<Rightarrow> 0 < m \<and> last vs = x \<and> occupied (slots c ! x) \<and>
                         key_hit k (slots c ! x)) \<and>
            Has c k = Inr (r \<noteq> None) \<and>
            Get c k = Inr (map_option (\<lambda>x. string_of_cstr (value (slots c ! x))) r) \<and>
            (\<exists>c'. Delete c k = Inr (r \<noteq> None, c'))) \<and>
         (\<exists>vs r m. scan (set_hit k) c k = Inr (vs, r) \<and> m \<le> max_keys (header c) \<and>
            vs = map (\<lambda>i. (unat (Hash k) mod max_keys (header c) + i) mod max_keys (header c))
                   [0..<m] \<and>
            (case r of
               None \<Rightarrow> m = max_keys (header c)
             | Some x \<Rightarrow> 0 < m \<and> last vs = x \<and> set_hit k (slots c ! x)) \<and>
            (length v < MAX_VALUE_SIZE \<longrightarrow> (\<exists>c'. Set c k v now = Inr (r \<noteq> None, c')))) \<and>
         (\<forall>c'. length v < MAX_VALUE_SIZE \<and> Set c k v now = Inr (False, c') \<longrightarrow>
            scan (set_hit k) c k =
              Inr (map (\<lambda>i. (unat (Hash k) mod max_keys (header c) + i) mod max_keys (header c))
                     [0..<max_keys (header c)], None)) \<and>
         (\<forall>vs. scan (set_hit k) c k = Inr (vs, None) \<longrightarrow>
            vs = map (\<lambda>i. (unat (Hash k) mod max_keys (header c) + i) mod max_keys (header c))
                   [0..<max_keys (header c)]) \<and>
         (\<forall>i<length (slots c). key_hit k (slots c ! i) \<longrightarrow>
            Has c k = Inr True \<and> (\<exists>v. Get c k = Inr (Some v)) \<and>
            (\<exists>c'. Delete c k = Inr (True, c')))"
proof (intro conjI allI impI)
  obtain vs r where r: "scan (key_hit k) c k = Inr (vs, r)"
    using scan_total [OF assms(1,2)] by blast
  from scan_visits [OF assms(1,2) r] obtain m where m:
    "m \<le> max_keys (header c)"
    "vs = map (\<lambda>i. (unat (Hash k) mod max_keys (header c) + i) mod max_keys (header c)) [0..<m]"
    "r = None \<longrightarrow> m = max_keys (header c)"
    "\<forall>x. r = Some x \<longrightarrow>
       0 < m \<and> x = (unat (Hash k) mod max_keys (header c) + (m - 1)) mod max_keys (header c) \<and>
       x < length (slots c) \<and> key_hit k (slots c ! x)"
    by blast
  have c: "case r of
             None \<Rightarrow> m = max_keys (header c)
           | Some x \<Rightarrow> 0 < m \<and> last vs = x \<and> occupied (slots c ! x) \<and> key_hit k (slots c ! x)"
  proof (cases r)
    case None
    then show ?thesis using m(3) by simp
  next
    case (Some x)
    with m(4) have x: "0 < m"
      "x = (unat (Hash k) mod max_keys (header c) + (m - 1)) mod max_keys (header c)"
      "key_hit k (slots c ! x)"
      by blast+
    then have "last vs = x"
      using m(2) by (simp add: last_map last_upt)
    then show ?thesis using Some x by (simp add: key_hit_def)
  qed
  have h: "Has c k = Inr (r \<noteq> None)"
    using r assms(3) by (cases r) (simp_all add: Has_def)
  have g: "Get c k = Inr (map_option (\<lambda>x. string_of_cstr (value (slots c ! x))) r)"
    using r assms(3) by (cases r) (simp_all add: Get_def)
  have d: "\<exists>c'. Delete c k = Inr (r \<noteq> None, c')"
    using r assms(3) by (cases r) (simp_all add: Delete_def)
  show "\<exists>vs r m. scan (key_hit k) c k = Inr (vs, r) \<and> m \<le> max_keys (header c) \<and>
            vs = map (\<lambda>i. (unat (Hash k) mod max_keys (header c) + i) mod max_keys (header c))
                   [0..<m] \<and>
            (case r of
               None \<Rightarrow> m = max_keys (header c)
             | Some x \<Rightarrow> 0 < m \<and> last vs = x \<and> occupied (slots c ! x) \<and>
                         key_hit k (slots c ! x)) \<and>
            Has c k = Inr (r \<noteq> None) \<and>
            Get c k = Inr (map_option (\<lambda>x. string_of_cstr (value (slots c ! x))) r) \<and>
            (\<exists>c'. Delete c k = Inr (r \<noteq> None, c'))"
    using r m(1,2) c h g d by blast
next
  obtain vs r where r: "scan (set_hit k) c k = Inr (vs, r)"
    using scan_total [OF assms(1,2)] by blast
  from scan_visits [OF assms(1,2) r] obtain m where m:
    "m \<le> max_keys (header c)"
    "vs = map (\<lambda>i. (unat (Hash k) mod max_keys (header c) + i) mod max_keys (header c)) [0..<m]"
    "r = None \<longrightarrow> m = max_keys (header c)"
    "\<forall>x. r = Some x \<longrightarrow>
       0 < m \<and> x = (unat (Hash k) mod max_keys (header c) + (m - 1)) mod max_keys (header c) \<and>
       x < length (slots c) \<and> set_hit k (slots c ! x)"
    by blast
  have c: "case r of
             None \<Rightarrow> m = max_keys (header c)
           | Some x \<Rightarrow> 0 < m \<and> last vs = x \<and> set_hit k (slots c ! x)"
  proof (cases r)
    case None
    then show ?thesis using m(3) by simp
  next
    case (Some x)
    with m(4) have x: "0 < m"
      "x = (unat (Hash k) mod max_keys (header c) + (m - 1)) mod max_keys (header c)"
      "set_hit k (slots c ! x)"
      by blast+
    then have "last vs = x"
      using m(2) by (simp add: last_map last_upt)
    then show ?thesis using Some x by simp
  qed
  have s: "length v < MAX_VALUE_SIZE \<longrightarrow> (\<exists>c'. Set c k v now = Inr (r \<noteq> None, c'))"
    using Set_by_scan [OF assms(3) _ r] by blast
  show "\<exists>vs r m. scan (set_hit k) c k = Inr (vs, r) \<and> m \<le> max_keys (header c) \<and>
            vs = map (\<lambda>i. (unat (Hash k) mod max_keys (header c) + i) mod max_keys (header c))
                   [0..<m] \<and>
            (case r of
               None \<Rightarrow> m = max_keys (header c)
             | Some x \<Rightarrow> 0 < m \<and> last vs = x \<and> set_hit k (slots c ! x)) \<and>
            (length v < MAX_VALUE_SIZE \<longrightarrow> (\<exists>c'. Set c k v now = Inr (r \<noteq> None, c')))"
    using r m(1,2) c s by blast
next
  fix c' assume a: "length v < MAX_VALUE_SIZE \<and> Set c k v now = Inr (False, c')"
  obtain vs r where r: "scan (set_hit k) c k = Inr (vs, r)"
    using scan_total [OF assms(1,2)] by blast
  from Set_by_scan [OF assms(3) _ r, of v now] a have "r = None" by auto
  with scan_visits [OF assms(1,2) r] r
  show "scan (set_hit k) c k =
          Inr (map (\<lambda>i. (unat (Hash k) mod max_keys (header c) + i) mod max_keys (header c))
                 [0..<max_keys (header c)], None)"
    by auto
next
  fix vs assume "scan (set_hit k) c k = Inr (vs, None)"
  from scan_visits [OF assms(1,2) this]
  show "vs = map (\<lambda>i. (unat (Hash k) mod max_keys (header c) + i) mod max_keys (header c))
                   [0..<max_keys (header c)]"
    by auto
next
  fix i assume i: "i < length (slots c)" "key_hit k (slots c ! i)"
  then show "Has c k = Inr True"
    using Has_iff [OF assms] by auto
  from i show "\<exists>v. Get c k = Inr (Some v)"
    using Get_finds [OF assms] by blast
  from i show "\<exists>c'. Delete c k = Inr (True, c')"
    using Delete_finds [OF assms] by blast
qed



theorem lookups_scan_past_holes_witness:
  "layout hole_table \<and> 0 < max_keys (header hole_table) \<and> length [0x63 :: byte] < MAX_KEY_SIZE \<and>
   unat (Hash [0x63]) mod max_keys (header hole_table) = 0 \<and>
   \<not> occupied (slots hole_table ! 0) \<and> key_hit [0x63] (slots hole_table ! 1) \<and>
   scan (key_hit [0x63]) hole_table [0x63] = Inr ([0, 1], Some 1) \<and>
   Has hole_table [0x63] = Inr True \<and> (\<exists>v. Get hole_table [0x63] = Inr (Some v)) \<and>
   (\<exists>c'. Delete hole_table [0x63] = Inr (True, c')) \<and>
   length [0x34 :: byte] < MAX_VALUE_SIZE \<and>
   scan (set_hit [0x63]) hole_table [0x63] = Inr ([0], Some 0) \<and>
   (\<exists>c'. Set hole_table [0x63] [0x34] 3 = Inr (True, c')) \<and>
   layout duplicate_table \<and> max_keys (header duplicate_table) = 2 \<and>
   length [0x62 :: byte] < MAX_KEY_SIZE \<and> length [0x32 :: byte] < MAX_VALUE_SIZE \<and>
   unat (Hash [0x62]) mod max_keys (header duplicate_table) = 1 \<and>
   Set duplicate_table [0x62] [0x32] 4 = Inr (False, duplicate_table) \<and>
   scan (set_hit [0x62]) duplicate_table [0x62] = Inr ([1, 0], None)"
proof -
  have lay: "layout hole_table"
    using reachable_inv [OF reachable_hole_table] by (simp add: table_inv_def)
  have pos: "0 < max_keys (header hole_table)" "1 < length (slots hole_table)"
    "unat (Hash [0x63]) mod max_keys (header hole_table) = 0"
    by (simp_all add: hole_table_def hash_c_even)
  have hole: "\<not> occupied (slots hole_table ! 0)"
    by (simp add: hole_table_def occupied_erase_slot)
  have hit: "key_hit [0x63] (slots hole_table ! 1)"
    by (simp add: hole_table_def eval_slots)
  have sc: "scan (key_hit [0x63]) hole_table [0x63] = Inr ([0, 1], Some 1)"
    by (simp add: hole_table_def eval_ops eval_slots hash_c_even)
  have len: "length [0x63 :: byte] < MAX_KEY_SIZE" "length [0x62 :: byte] < MAX_KEY_SIZE"
    "length [0x32 :: byte] < MAX_VALUE_SIZE"
    by simp_all
  have lay2: "layout duplicate_table"
    using reachable_inv [OF reachable_duplicate_table] by (simp add: table_inv_def)
  have pos2: "max_keys (header duplicate_table) = 2"
    "unat (Hash [0x62]) mod max_keys (header duplicate_table) = 1"
    by (simp_all add: duplicate_table_def hash_b_odd)
  have full: "Set duplicate_table [0x62] [0x32] 4 = Inr (False, duplicate_table)"
    by (simp add: duplicate_table_def eval_ops eval_slots hash_b_odd)
  have seq: "map (\<lambda>i. (1 + i) mod 2) [0..<2] = [1, 0 :: nat]"
    by (simp add: numeral_2_eq_2)
  note found = lookups_scan_past_holes [OF lay pos(1) len(1), THEN conjunct2, THEN conjunct2,
      THEN conjunct2, THEN conjunct2, rule_format, OF pos(2) hit]
  have sc1: "scan (set_hit [0x63]) hole_table [0x63] = Inr ([0], Some 0)"
    by (simp add: hole_table_def eval_ops eval_slots hash_c_even)
  note lookups_scan_past_holes [OF lay pos(1) len(1), THEN conjunct2, THEN conjunct1,
      of "[0x34]" 3]
  with sc1 have stored: "\<exists>c'. Set hole_table [0x63] [0x34] 3 = Inr (True, c')"
    by auto
  have "0 < max_keys (header duplicate_table)"
    using pos2(1) by simp
  note lookups_scan_past_holes [OF lay2 this len(2), THEN conjunct2, THEN conjunct2, THEN conjunct1,
      rule_format, of "[0x32]" 4 duplicate_table]
  with len(3) full
  have "scan (set_hit [0x62]) duplicate_table [0x62] =
          Inr (map (\<lambda>i. (unat (Hash [0x62]) mod max_keys (header duplicate_table) + i)
                       mod max_keys (header duplicate_table))
                 [0..<max_keys (header duplicate_table)], None)"
    by blast
  then have sc2: "scan (set_hit [0x62]) duplicate_table [0x62] = Inr ([1, 0], None)"
    by (simp only: pos2(1) hash_b_odd seq)
  from found lay pos hole hit sc len sc1 stored lay2 pos2 full sc2 show ?thesis
    by (intro conjI) simp_all
qed

text \<open>
  C3 as stated fails: a scan does not always lock all \<open>capacity\<close> slots. On the table of
  capacity 2 that holds \<^verbatim>\<open>"a"\<close> in slot 0, the scan of \<^verbatim>\<open>get("a")\<close> locks slot 0 only and
  stops there, at the slot that holds the key. And the scan of \<^verbatim>\<open>Set\<close> does stop at an
  unoccupied slot: on the table with the hole, the scan of \<^verbatim>\<open>set("c", \<dots>)\<close> locks slot 0
  only, the hole, and stops there.
\<close>

theorem scans_stop_early_counterexample:
  "max_keys (header first_slot_table) = 2 \<and>
   scan (key_hit [0x61]) first_slot_table [0x61] = Inr ([0], Some 0) \<and>
   Get first_slot_table [0x61] = Inr (Some [0x31]) \<and>
   max_keys (header hole_table) = 2 \<and> \<not> occupied (slots hole_table ! 0) \<and>
   scan (set_hit [0x63]) hole_table [0x63] = Inr ([0], Some 0)"
  by (simp add: first_slot_table_def hole_table_def eval_ops eval_slots hash_a_even hash_c_even)

subsection \<open>C4: get after set\<close>

text \<open>
  C4 (as amended). After a \<^verbatim>\<open>set(k, v)\<close> that returned true, \<^verbatim>\<open>get(k)\<close> returns the
  bytes of \<open>v\<close> before its first NUL byte: the value is stored and read back as a C
  string. It returns exactly \<open>v\<close> when \<open>v\<close> has no NUL byte.
\<close>

theorem set_then_get_returns_cstring:
  assumes "layout c" "length k < MAX_KEY_SIZE" "length v < MAX_VALUE_SIZE"
    and "Set c k v now = Inr (True, c')"
  shows "Get c' k = Inr (Some (string_of_cstr v)) \<and>
         (0 \<notin> set v \<longrightarrow> Get c' k = Inr (Some v))"
  using Set_then_Get [OF assms(1,4)] by (simp add: string_of_cstr_no_nul)

theorem set_then_get_returns_cstring_witness:
  "layout (FastShmCache_new (Some 1)) \<and>
   length [0x6B :: byte] < MAX_KEY_SIZE \<and> length [0x61, 0x62 :: byte] < MAX_VALUE_SIZE \<and>
   Set (FastShmCache_new (Some 1)) [0x6B] [0x61, 0x62] 7 = Inr (True, one_entry_table) \<and>
   Get one_entry_table [0x6B] = Inr (Some [0x61, 0x62])"
proof -
  have s: "Set (FastShmCache_new (Some 1)) [0x6B] [0x61, 0x62] 7 = Inr (True, one_entry_table)"
    by (simp add: one_entry_table_def new_1 eval_ops eval_slots)
  from set_then_get_returns_cstring [OF layout_new _ _ s] s layout_new
  show ?thesis by (simp add: string_of_cstr_Nil string_of_cstr_Cons)
qed

text \<open>
  C4 as stated fails: a value with a NUL byte inside, \<^verbatim>\<open>"a\0b"\<close>, is accepted by \<^verbatim>\<open>set\<close>
  and \<^verbatim>\<open>get\<close> then returns \<^verbatim>\<open>"a"\<close>.
\<close>

theorem set_then_get_nul_counterexample:
  "replies (FastShmCache_new (Some 1))
     [Call_set [0x6B] [0x61, 0x00, 0x62] 7, Call_get [0x6B]] =
   Inr [Boolean True, String_or_undefined (Some [0x61])]"
  by (simp add: new_1 eval_ops eval_slots)

subsection \<open>C5: length bounds\<close>

text \<open>
  C5. A key of \<open>MAX_KEY_SIZE\<close> bytes or more, or a value of \<open>MAX_VALUE_SIZE\<close> bytes or
  more, makes \<^verbatim>\<open>Set\<close> return false with the table (every slot and the counter) as it
  was. A key of \<open>MAX_KEY_SIZE - 1\<close> bytes with a value of \<open>MAX_VALUE_SIZE - 1\<close> bytes is
  accepted: on a table that has a free slot \<^verbatim>\<open>Set\<close> returns true, and the value is
  stored whole.
\<close>

theorem set_length_bounds:
  "(MAX_KEY_SIZE \<le> length k \<or> MAX_VALUE_SIZE \<le> length v \<longrightarrow>
      Set c k v now = Inr (False, c)) \<and>
   (layout c \<and> 0 < max_keys (header c) \<and> i < length (slots c) \<and> \<not> occupied (slots c ! i) \<and>
    length k' = MAX_KEY_SIZE - 1 \<and> length v' = MAX_VALUE_SIZE - 1 \<longrightarrow>
      (\<exists>c'. Set c k' v' now = Inr (True, c') \<and>
            Get c' k' = Inr (Some (string_of_cstr v')) \<and>
            (0 \<notin> set v' \<longrightarrow> Get c' k' = Inr (Some v'))))"
proof (intro conjI impI)
  assume "MAX_KEY_SIZE \<le> length k \<or> MAX_VALUE_SIZE \<le> length v"
  then show "Set c k v now = Inr (False, c)" by (rule Set_rejects)
next
  assume a: "layout c \<and> 0 < max_keys (header c) \<and> i < length (slots c) \<and>
    \<not> occupied (slots c ! i) \<and> length k' = MAX_KEY_SIZE - 1 \<and> length v' = MAX_VALUE_SIZE - 1"
  then have "set_hit k' (slots c ! i)" by (simp add: set_hit_def)
  with a obtain c' where c': "Set c k' v' now = Inr (True, c')"
    using Set_succeeds [of c k' v' i now] by auto
  with a have "Get c' k' = Inr (Some (string_of_cstr v'))"
    using Set_then_Get [of c k' v' now c'] by simp
  with c' show "\<exists>c'. Set c k' v' now = Inr (True, c') \<and>
            Get c' k' = Inr (Some (string_of_cstr v')) \<and>
            (0 \<notin> set v' \<longrightarrow> Get c' k' = Inr (Some v'))"
    by (auto simp: string_of_cstr_no_nul)
qed

theorem set_length_bounds_witness:
  "Set (FastShmCache_new (Some 1)) (replicate 64 0x61) [0x62] 7 =
     Inr (False, FastShmCache_new (Some 1)) \<and>
   Set (FastShmCache_new (Some 1)) [0x61] (replicate 256 0x62) 7 =
     Inr (False, FastShmCache_new (Some 1)) \<and>
   (\<exists>c'. Set (FastShmCache_new (Some 1)) (replicate 63 0x61) (replicate 255 0x62) 7 =
            Inr (True, c') \<and>
         Get c' (replicate 63 0x61) = Inr (Some (replicate 255 0x62)))"
proof -
  let ?c = "FastShmCache_new (Some 1)"
  have h: "layout ?c \<and> 0 < max_keys (header ?c) \<and> 0 < length (slots ?c) \<and>
      \<not> occupied (slots ?c ! 0) \<and>
      length (replicate 63 (0x61 :: byte)) = MAX_KEY_SIZE - 1 \<and>
      length (replicate 255 (0x62 :: byte)) = MAX_VALUE_SIZE - 1"
    using layout_new [of "Some 1"] by (simp add: new_1 occupied_zero_slot)
  have z: "0 \<notin> set (replicate 255 (0x62 :: byte))" by simp
  from set_length_bounds [of "replicate 64 0x61" "[0x62]" ?c 7 0 "replicate 63 0x61"
      "replicate 255 0x62"]
    set_length_bounds [of "[0x61]" "replicate 256 0x62" ?c 7 0 "replicate 63 0x61"
      "replicate 255 0x62"] h z
  show ?thesis by simp blast
qed

subsection \<open>C6: a full table\<close>

text \<open>
  C6 (as amended). On an empty table of capacity \<open>C \<ge> 1\<close> (a reachable table of size 0,
  a fresh one for instance), \<^verbatim>\<open>set\<close> of \<open>C\<close> keys of valid lengths that differ as C strings
  (before their first NUL byte) returns true each time; a \<^verbatim>\<open>set\<close> of one more key,
  different from all of them as a C string, returns false and leaves the table as it
  was, and \<^verbatim>\<open>get\<close> of each of the \<open>C\<close> keys then returns its value as stored, that is, up
  to the first NUL byte.
\<close>

theorem full_table_rejects_new_key:
  assumes "reachable c0" "Size c0 = 0" "0 < max_keys (header c0)"
    and "length es = max_keys (header c0)"
    and "distinct (map (\<lambda>e. string_of_cstr (fst e)) es)"
    and "\<forall>e\<in>set es. length (fst e) < MAX_KEY_SIZE \<and> length (fst (snd e)) < MAX_VALUE_SIZE"
    and "length k < MAX_KEY_SIZE" "length v < MAX_VALUE_SIZE"
    and "string_of_cstr k \<notin> (\<lambda>e. string_of_cstr (fst e)) ` set es"
  shows "\<exists>c. run c0 (set_calls es) =
               Inr (replicate (max_keys (header c0)) (Boolean True), c) \<and>
             Set c k v now = Inr (False, c) \<and>
             (\<forall>e\<in>set es. Get c (fst e) = Inr (Some (string_of_cstr (fst (snd e)))))"
proof -
  from fill [OF stores_empty [OF assms(1,2)], of es] assms(4,5,6) obtain c where c:
    "run c0 (set_calls es) = Inr (replicate (length es) (Boolean True), c)"
    "stores c es" "max_keys (header c) = max_keys (header c0)"
    by auto
  have inv: "table_inv c" and cnt: "length (filter occupied (slots c)) = length es"
    and held: "\<And>i. i < length (slots c) \<Longrightarrow> occupied (slots c ! i) \<Longrightarrow>
         \<exists>e\<in>set es. string_of_cstr (key (slots c ! i)) = string_of_cstr (fst e) \<and>
                     string_of_cstr (value (slots c ! i)) = string_of_cstr (fst (snd e))"
    and found: "\<And>e. e \<in> set es \<Longrightarrow> \<exists>i<length (slots c). key_hit (fst e) (slots c ! i)"
    using c(2) by (auto simp: stores_def)
  have lay: "layout c" using inv by (simp add: table_inv_def)
  have pos: "0 < max_keys (header c)" using c(3) assms(3) by simp
  have n: "length (slots c) = length es"
    using lay c(3) assms(4) by (simp add: layout_def)
  have occ: "occupied (slots c ! i)" if "i < length (slots c)" for i
    using all_slots_taken [of occupied "slots c" i] cnt n that by simp
  have "\<not> set_hit k (slots c ! i)" if i: "i < length (slots c)" for i
  proof
    assume "set_hit k (slots c ! i)"
    then have "string_of_cstr (key (slots c ! i)) = string_of_cstr k"
      using set_hit_iff [OF layout_slot [OF lay i] assms(7)] occ [OF i] by simp
    with held [OF i occ [OF i]] assms(9) show False by force
  qed
  then have full: "Set c k v now = Inr (False, c)"
    using Set_full [OF lay pos assms(7,8)] by simp
  have get: "Get c (fst e) = Inr (Some (string_of_cstr (fst (snd e))))" if e: "e \<in> set es" for e
  proof -
    have kl: "length (fst e) < MAX_KEY_SIZE" using assms(6) e by simp
    obtain r where r: "Get c (fst e) = Inr r"
      using Get_total [OF lay pos] by blast
    have "r \<noteq> None"
      using Get_None_iff [OF lay pos kl] found [OF e] r by auto
    then obtain v0 where v0: "r = Some v0" by auto
    from Get_Some [OF lay] r v0 obtain i where i: "i < length (slots c)"
      "key_hit (fst e) (slots c ! i)" "v0 = string_of_cstr (value (slots c ! i))"
      by blast
    have ki: "string_of_cstr (key (slots c ! i)) = string_of_cstr (fst e)"
      using key_hit_iff [OF layout_slot [OF lay i(1)] kl] i(2) by simp
    from held [OF i(1) occ [OF i(1)]] obtain e' where e': "e' \<in> set es"
      "string_of_cstr (key (slots c ! i)) = string_of_cstr (fst e')"
      "string_of_cstr (value (slots c ! i)) = string_of_cstr (fst (snd e'))"
      by blast
    have "inj_on (\<lambda>e. string_of_cstr (fst e)) (set es)"
      using assms(5) by (simp add: distinct_map)
    then have "e' = e" using e e'(1,2) ki by (auto dest: inj_onD)
    then show ?thesis using r v0 i(3) e'(3) by simp
  qed
  show ?thesis using c(1) assms(4) full get by auto
qed

theorem full_table_rejects_new_key_witness:
  "reachable (FastShmCache_new (Some 2)) \<and> Size (FastShmCache_new (Some 2)) = 0 \<and>
   max_keys (header (FastShmCache_new (Some 2))) = 2 \<and>
   distinct (map (\<lambda>e. string_of_cstr (fst e))
      [([0x61], [0x31], 1), ([0x63 :: byte], [0x33 :: byte], 2 :: 64 word)]) \<and>
   (\<exists>c. run (FastShmCache_new (Some 2))
           [Call_set [0x61] [0x31] 1, Call_set [0x63] [0x33] 2] =
           Inr ([Boolean True, Boolean True], c) \<and>
        Set c [0x62] [0x32] 3 = Inr (False, c) \<and>
        Get c [0x61] = Inr (Some [0x31]) \<and> Get c [0x63] = Inr (Some [0x33]))"
proof -
  let ?es = "[([0x61], [0x31], 1), ([0x63 :: byte], [0x33 :: byte], 2 :: 64 word)]"
  have d: "distinct (map (\<lambda>e. string_of_cstr (fst e)) ?es)"
    by (simp add: string_of_cstr_Nil string_of_cstr_Cons)
  have n: "string_of_cstr [0x62] \<notin> (\<lambda>e. string_of_cstr (fst e)) ` set ?es"
    by (simp add: string_of_cstr_Nil string_of_cstr_Cons)
  have z: "Size (FastShmCache_new (Some 2)) = 0" "max_keys (header (FastShmCache_new (Some 2))) = 2"
    by (simp_all add: new_2 Size_def)
  have two: "replicate 2 (Boolean True) = [Boolean True, Boolean True]"
    by (simp add: numeral_2_eq_2)
  from full_table_rejects_new_key [OF reachable.fresh z(1), of ?es "[0x62]" "[0x32]" 3] d n z
    reachable.fresh [of "Some 2"]
  show ?thesis
    unfolding set_calls_def
    by (simp add: two string_of_cstr_Nil string_of_cstr_Cons)
qed

text \<open>
  C6 as stated fails: \<^verbatim>\<open>"a"\<close> and \<^verbatim>\<open>"a\0"\<close> are distinct keys of valid lengths, and on a
  table of capacity 1 \<^verbatim>\<open>set\<close> of the second, after the first, returns true and replaces
  the value of the first.
\<close>

theorem full_table_nul_key_counterexample:
  "replies (FastShmCache_new (Some 1))
     [Call_set [0x61] [0x31] 1, Call_set [0x61, 0x00] [0x32] 2, Call_get [0x61]] =
   Inr [Boolean True, Boolean True, String_or_undefined (Some [0x32])]"
  by (simp add: new_1 eval_ops eval_slots)

subsection \<open>C7: size\<close>

text \<open>
  C7. The claim fails on the code, by the same defect. On the reachable table that stores
  \<^verbatim>\<open>"c"\<close> twice \<^verbatim>\<open>size()\<close> is 2, the number of occupied slots, while \<^verbatim>\<open>has(k)\<close> is true only
  for the keys that read \<^verbatim>\<open>"c"\<close> as a C string.
\<close>

theorem size_counts_key_twice:
  "reachable duplicate_table \<and> Size duplicate_table = 2 \<and>
   length (filter occupied (slots duplicate_table)) = 2 \<and>
   Keys duplicate_table = Inr [[0x63], [0x63]] \<and>
   Has duplicate_table k = Inr (length k < MAX_KEY_SIZE \<and> string_of_cstr k = [0x63])"
proof -
  have lay: "layout duplicate_table"
    using reachable_inv [OF reachable_duplicate_table] by (simp add: table_inv_def)
  have "Has duplicate_table k = Inr (length k < MAX_KEY_SIZE \<and> string_of_cstr k = [0x63])"
  proof (cases "length k < MAX_KEY_SIZE")
    case True
    have "(\<exists>i<length (slots duplicate_table). key_hit k (slots duplicate_table ! i)) =
          (string_of_cstr k = [0x63])"
      using True by (auto simp: duplicate_table_def less_Suc_eq eval_slots)
    then show ?thesis
      using Has_iff [OF lay _ True] True by (simp add: duplicate_table_def)
  next
    case False
    then show ?thesis by (simp add: Has_def)
  qed
  moreover have "Keys duplicate_table = Inr [[0x63], [0x63]]"
    by (simp add: duplicate_table_def eval_ops eval_slots)
  ultimately show ?thesis
    using reachable_duplicate_table
    by (simp add: duplicate_table_def Size_def occupied_write_slot)
qed

subsection \<open>C8: the hash is FNV-1a\<close>

text \<open>
  C8. The claim holds for byte strings below \<open>0x80\<close> and fails above: on the UTF-8
  bytes of the one-letter key \<^verbatim>\<open>"\u00e9"\<close>, \<open>0xC3 0xA9\<close>, the hash computed with a signed
  \<^verbatim>\<open>char\<close> is not the FNV-1a hash, which the unsigned computation gives.
\<close>

theorem Hash_differs_from_fnv1a_on_high_bytes:
  "unat (Hash [0xC3, 0xA9]) = 1023043777 \<and> fnv1a_32 [0xC3, 0xA9] = 513665217 \<and>
   unat (Hash_abi False [0xC3, 0xA9]) = 513665217"
  by (simp add: Hash_def Hash_abi_def fnv1a_32_def static_cast_uint32_def)

subsection \<open>C9: clear\<close>

text \<open>
  C9. On a reachable table \<^verbatim>\<open>Clear\<close> returns, and afterwards \<^verbatim>\<open>Size\<close> is 0, every slot is
  unoccupied with zeroed key and value buffers, and \<^verbatim>\<open>Has\<close> is false for every key that
  was present before.
\<close>

theorem clear_empties_table:
  assumes "reachable c"
  shows "\<exists>c'. Clear c = Inr c' \<and> Size c' = 0 \<and>
           length (slots c') = max_keys (header c) \<and>
           (\<forall>s\<in>set (slots c'). \<not> occupied s \<and> key s = replicate MAX_KEY_SIZE 0 \<and>
                                  value s = replicate MAX_VALUE_SIZE 0) \<and>
           (\<forall>k. Has c k = Inr True \<longrightarrow> Has c' k = Inr False)"
proof -
  have inv: "table_inv c" using assms by (rule reachable_inv)
  then have lay: "layout c" by (simp add: table_inv_def)
  obtain c' where c': "Clear c = Inr c'"
    using Clear_result [OF lay] by blast
  from Clear_inv [OF inv c'] have inv': "table_inv c'"
    and free: "\<forall>s\<in>set (slots c'). \<not> occupied s" and zero: "num_entries (header c') = 0"
    by simp_all
  have lay': "layout c'" using inv' by (simp add: table_inv_def)
  have mk: "max_keys (header c') = max_keys (header c)"
    using Clear_result [OF lay] c' by auto
  have len: "length (slots c') = max_keys (header c)"
    using lay' mk by (simp add: layout_def)
  have zeroed: "\<not> occupied s \<and> key s = replicate MAX_KEY_SIZE 0 \<and>
                value s = replicate MAX_VALUE_SIZE 0" if "s \<in> set (slots c')" for s
    using that inv' free by (auto simp: table_inv_def list_all_iff slot_inv_def)
  have has: "Has c' k = Inr False" if "Has c k = Inr True" for k
  proof -
    have k: "length k < MAX_KEY_SIZE" "0 < max_keys (header c)"
      using that by (auto simp: Has_def scan_def split: if_splits)
    have "\<not> key_hit k (slots c' ! i)" if "i < length (slots c')" for i
      using that free by (simp add: key_hit_def)
    then show ?thesis
      using Has_iff [OF lay' _ k(1)] k(2) mk by simp
  qed
  show ?thesis
    using c' zero len zeroed has by (auto simp: Size_def)
qed

theorem clear_empties_table_witness:
  "reachable hole_table \<and> Has hole_table [0x63] = Inr True \<and> Size hole_table = 1 \<and>
   (\<exists>c'. Clear hole_table = Inr c' \<and> Size c' = 0 \<and> length (slots c') = 2 \<and>
      list_all (\<lambda>s. \<not> occupied s \<and> key s = replicate MAX_KEY_SIZE 0 \<and>
                     value s = replicate MAX_VALUE_SIZE 0) (slots c') \<and>
      Has c' [0x63] = Inr False)"
proof -
  have h: "Has hole_table [0x63] = Inr True"
    by (simp add: hole_table_def eval_ops eval_slots hash_c_even)
  have s: "Size hole_table = 1" "max_keys (header hole_table) = 2"
    by (simp_all add: hole_table_def Size_def)
  from clear_empties_table [OF reachable_hole_table] h s reachable_hole_table
  show ?thesis by (auto simp: list_all_iff)
qed

subsection \<open>C10: slot indices\<close>

text \<open>
  What holds on every table: with a stored capacity of at least 1, the start index and
  every probe index are below the capacity, and so is every index a scan locks; when the
  slot array the process has mapped holds that many slots, no operation reads outside it
  or divides by zero. The constructor stores \<open>maxKeys = 0\<close> as it is, and on that table
  the operations that hash a key divide by zero.
\<close>

lemma slot_indices_in_bounds:
  "(0 < max_keys (header c) \<longrightarrow>
      unat (Hash k) mod max_keys (header c) < max_keys (header c) \<and>
      probe_index (max_keys (header c)) start i < max_keys (header c) \<and>
      (\<forall>vs r. scan hit c k = Inr (vs, r) \<longrightarrow> (\<forall>x\<in>set vs. x < max_keys (header c)))) \<and>
   (0 < max_keys (header c) \<and> length (slots c) = max_keys (header c) \<longrightarrow>
      (\<exists>vs r. scan hit c k = Inr (vs, r)) \<and>
      (\<exists>r c'. Set c k v now = Inr (r, c')) \<and> (\<exists>r. Get c k = Inr r) \<and>
      (\<exists>r c'. Delete c k = Inr (r, c')) \<and> (\<exists>r. Has c k = Inr r) \<and>
      (\<exists>r. Keys c = Inr r) \<and> (\<exists>r. Entries c = Inr r) \<and> (\<exists>c'. Clear c = Inr c')) \<and>
   max_keys (header (FastShmCache_new (Some 0))) = 0 \<and>
   (length k < MAX_KEY_SIZE \<and> length v < MAX_VALUE_SIZE \<longrightarrow>
      Set (FastShmCache_new (Some 0)) k v now = Inl DivisionByZero \<and>
      Get (FastShmCache_new (Some 0)) k = Inl DivisionByZero \<and>
      Delete (FastShmCache_new (Some 0)) k = Inl DivisionByZero \<and>
      Has (FastShmCache_new (Some 0)) k = Inl DivisionByZero)"
proof (intro conjI impI)
  assume "0 < max_keys (header c)"
  then show "unat (Hash k) mod max_keys (header c) < max_keys (header c)" by simp
next
  assume "0 < max_keys (header c)"
  then show "probe_index (max_keys (header c)) start i < max_keys (header c)"
    by (rule probe_index_less)
next
  assume "0 < max_keys (header c)"
  then show "\<forall>vs r. scan hit c k = Inr (vs, r) \<longrightarrow> (\<forall>x\<in>set vs. x < max_keys (header c))"
    using probe_visited_less by (simp add: scan_eq)
next
  assume a: "0 < max_keys (header c) \<and> length (slots c) = max_keys (header c)"
  then have sc: "\<exists>vs r. scan f c k = Inr (vs, r)" for f
    using scan_no_error [of c f k] by simp
  from sc show "\<exists>vs r. scan hit c k = Inr (vs, r)" .
  from sc [of "set_hit k"] show "\<exists>r c'. Set c k v now = Inr (r, c')"
    by (auto simp: Set_def Let_def split: option.splits)
  from sc [of "key_hit k"] show "\<exists>r. Get c k = Inr r"
    by (auto simp: Get_def split: option.splits)
  from sc [of "key_hit k"] show "\<exists>r c'. Delete c k = Inr (r, c')"
    by (auto simp: Delete_def split: option.splits)
  from sc [of "key_hit k"] show "\<exists>r. Has c k = Inr r"
    by (auto simp: Has_def split: option.splits)
  from a show "\<exists>r. Keys c = Inr r"
    using Keys_loop_result [of "max_keys (header c)" "slots c" 0] by (simp add: Keys_def)
  from a show "\<exists>r. Entries c = Inr r"
    using Entries_loop_result [of "max_keys (header c)" "slots c" 0] by (simp add: Entries_def)
  from a show "\<exists>c'. Clear c = Inr c'"
    using Clear_loop_result [of "max_keys (header c)" "slots c" 0] by (auto simp: Clear_def)
next
  show z: "max_keys (header (FastShmCache_new (Some 0))) = 0"
    by (simp add: FastShmCache_new_def InitializeSharedMemory_def)
  assume l: "length k < MAX_KEY_SIZE \<and> length v < MAX_VALUE_SIZE"
  from l z show "Set (FastShmCache_new (Some 0)) k v now = Inl DivisionByZero"
    by (simp add: Set_def zero_capacity_traps)
  from l z show "Get (FastShmCache_new (Some 0)) k = Inl DivisionByZero"
    by (simp add: Get_def zero_capacity_traps)
  from l z show "Delete (FastShmCache_new (Some 0)) k = Inl DivisionByZero"
    by (simp add: Delete_def zero_capacity_traps)
  from l z show "Has (FastShmCache_new (Some 0)) k = Inl DivisionByZero"
    by (simp add: Has_def zero_capacity_traps)
qed

lemma slot_indices_in_bounds_example:
  "0 < max_keys (header hole_table) \<and>
   length (slots hole_table) = max_keys (header hole_table) \<and>
   length [0x63 :: byte] < MAX_KEY_SIZE \<and> length [0x33 :: byte] < MAX_VALUE_SIZE \<and>
   unat (Hash [0x63]) mod max_keys (header hole_table) < max_keys (header hole_table) \<and>
   scan (key_hit [0x63]) hole_table [0x63] = Inr ([0, 1], Some 1) \<and>
   list_all (\<lambda>x. x < max_keys (header hole_table)) [0, 1] \<and>
   (\<exists>r c'. Set hole_table [0x63] [0x33] 3 = Inr (r, c')) \<and>
   (\<exists>r. Keys hole_table = Inr r) \<and> (\<exists>c'. Clear hole_table = Inr c') \<and>
   max_keys (header (FastShmCache_new (Some 0))) = 0 \<and>
   Has (FastShmCache_new (Some 0)) [0x63] = Inl DivisionByZero"
proof -
  have pos: "0 < max_keys (header hole_table)"
    "length (slots hole_table) = max_keys (header hole_table)"
    by (simp_all add: hole_table_def)
  have sc: "scan (key_hit [0x63]) hole_table [0x63] = Inr ([0, 1], Some 1)"
    by (simp add: hole_table_def eval_ops eval_slots hash_c_even)
  from slot_indices_in_bounds [of hole_table "[0x63]" 0 0 "key_hit [0x63]" "[0x33]" 3]
    pos sc
  show ?thesis by simp
qed

text \<open>
  The process that created the segment has mapped as many slots as the capacity it
  stored, and so has a process that attached with a \<open>maxKeys\<close> of at least that capacity:
  its view is the whole segment. A process that attached with a smaller \<open>maxKeys\<close> has
  mapped fewer slots than the capacity it reads from the header.
\<close>

lemma attach_header:
  "header (FastShmCache_attach maxKeys seg) = header seg"
  by (simp add: FastShmCache_attach_def InitializeSharedMemory_attach_def)

lemma attach_slots:
  "slots (FastShmCache_attach maxKeys seg) =
     take (case maxKeys of None \<Rightarrow> DEFAULT_MAX_KEYS | Some n \<Rightarrow> unat n) (slots seg)"
  by (simp add: FastShmCache_attach_def InitializeSharedMemory_attach_def)

lemma attach_covers:
  assumes "length (slots seg) \<le> (case maxKeys of None \<Rightarrow> DEFAULT_MAX_KEYS | Some n \<Rightarrow> unat n)"
  shows "FastShmCache_attach maxKeys seg = seg"
  using assms by (simp add: FastShmCache_attach_def InitializeSharedMemory_attach_def)

lemma attach_short:
  assumes "(case maxKeys of None \<Rightarrow> DEFAULT_MAX_KEYS | Some n \<Rightarrow> unat n) < max_keys (header seg)"
    "length (slots seg) = max_keys (header seg)"
  shows "length (slots (FastShmCache_attach maxKeys seg)) <
           max_keys (header (FastShmCache_attach maxKeys seg))"
  using assms by (simp add: attach_header attach_slots)

text \<open>Indices at or past the end of the mapped slots.\<close>

lemma hash_b_start: "unat (Hash [0x62]) mod 1024 = 485"
  by (simp add: hash_b)

lemma attached_view:
  "header (FastShmCache_attach (Some 1) (FastShmCache_new None)) =
     \<lparr>max_keys = 1024, num_entries = 0\<rparr>"
  "slots (FastShmCache_attach (Some 1) (FastShmCache_new None)) = [zero_slot]"
  by (simp_all add: attach_header attach_slots FastShmCache_new_def InitializeSharedMemory_def)

lemma probe_outside:
  assumes "i < n" "length arr \<le> probe_index n s i"
  shows "probe hit arr n s i = Inl OutOfBounds"
  using assms by (subst probe.simps) (simp add: slot_at_def Let_def)

lemma scan_outside:
  assumes "0 < max_keys (header c)" "length (slots c) \<le> unat (Hash k) mod max_keys (header c)"
  shows "scan hit c k = Inl OutOfBounds"
proof -
  have "unat (Hash k) mod max_keys (header c) < 2 ^ 64"
  proof -
    have "unat (Hash k) < 2 ^ 32" using unsigned_less [of "Hash k"] by simp
    then have "unat (Hash k) mod max_keys (header c) < 2 ^ 32"
      using mod_less_eq_dividend [of "unat (Hash k)" "max_keys (header c)"] by linarith
    then show ?thesis by simp
  qed
  then have "probe_index (max_keys (header c)) (unat (Hash k) mod max_keys (header c)) 0 =
          unat (Hash k) mod max_keys (header c)"
    by (simp add: probe_index_def)
  then show ?thesis
    using assms probe_outside [of 0 "max_keys (header c)" "slots c"
        "unat (Hash k) mod max_keys (header c)" hit]
    by (simp add: scan_eq)
qed

lemma Keys_loop_outside:
  assumes "i \<le> length arr" "length arr < n"
  shows "Keys_loop arr n i = Inl OutOfBounds"
  using assms
proof (induction "length arr - i" arbitrary: i)
  case 0
  then show ?case by (subst Keys_loop.simps) (simp add: slot_at_def)
next
  case (Suc d)
  then have "Keys_loop arr n (i + 1) = Inl OutOfBounds" by simp
  with Suc show ?case by (subst Keys_loop.simps) (simp add: slot_at_def)
qed

text \<open>
  C10. The claim fails for a process that attaches: a stored capacity of at least 1 does
  not keep the slot accesses inside what the process has mapped. One instance creates the
  segment with the default \<open>maxKeys\<close>, 1024; a second instance opens the same name with
  \<open>maxKeys = 1\<close>. It reads the capacity 1024 from the header and has mapped one slot. The
  hash of \<^verbatim>\<open>"b"\<close> modulo 1024 is 485, below the capacity as the claim says, and
  \<^verbatim>\<open>slots_[485]\<close> is the first slot the scan of \<^verbatim>\<open>get("b")\<close> reads, far outside the mapping:
  \<^verbatim>\<open>Get\<close>, \<^verbatim>\<open>Has\<close>, \<^verbatim>\<open>Delete\<close>, \<^verbatim>\<open>Set\<close> and \<^verbatim>\<open>Keys\<close> read out of bounds, where the creating
  instance answers \<^verbatim>\<open>get("b")\<close> with undefined.
\<close>

theorem attacher_reads_outside_mapping:
  "max_keys (header (FastShmCache_attach (Some 1) (FastShmCache_new None))) = 1024 \<and>
   length (slots (FastShmCache_attach (Some 1) (FastShmCache_new None))) = 1 \<and>
   unat (Hash [0x62]) mod 1024 = 485 \<and>
   scan (key_hit [0x62]) (FastShmCache_attach (Some 1) (FastShmCache_new None)) [0x62] =
     Inl OutOfBounds \<and>
   Get (FastShmCache_attach (Some 1) (FastShmCache_new None)) [0x62] = Inl OutOfBounds \<and>
   Has (FastShmCache_attach (Some 1) (FastShmCache_new None)) [0x62] = Inl OutOfBounds \<and>
   Delete (FastShmCache_attach (Some 1) (FastShmCache_new None)) [0x62] = Inl OutOfBounds \<and>
   Set (FastShmCache_attach (Some 1) (FastShmCache_new None)) [0x62] [0x32] 1 =
     Inl OutOfBounds \<and>
   Keys (FastShmCache_attach (Some 1) (FastShmCache_new None)) = Inl OutOfBounds \<and>
   Get (FastShmCache_new None) [0x62] = Inr None"
proof -
  let ?c = "FastShmCache_attach (Some 1) (FastShmCache_new None)"
  have m: "max_keys (header ?c) = 1024" and l: "length (slots ?c) = 1"
    by (simp_all add: attached_view)
  have sc: "scan hit ?c [0x62] = Inl OutOfBounds" for hit
    using scan_outside [of ?c "[0x62]" hit] by (simp add: m l hash_b_start)
  have k: "Keys ?c = Inl OutOfBounds"
    using Keys_loop_outside [of 0 "slots ?c" "max_keys (header ?c)"]
    by (simp add: Keys_def m l)
  have "\<forall>i<length (slots (FastShmCache_new None)).
          \<not> key_hit [0x62] (slots (FastShmCache_new None) ! i)"
    by (simp add: FastShmCache_new_def InitializeSharedMemory_def key_hit_def occupied_zero_slot)
  then have g: "Get (FastShmCache_new None) [0x62] = Inr None"
    using Get_None_iff [OF layout_new, of None "[0x62]"]
    by (simp add: FastShmCache_new_def InitializeSharedMemory_def)
  show ?thesis
    using m l hash_b_start sc k g
    by (simp add: Get_def Has_def Delete_def Set_def)
qed

end
